theory Spec2Isabelle
  imports Main "HOL-Library.Word"
begin

unbundle bit_operations_syntax

section \<open>Values, lanes and errors\<close>

text \<open>
  JavaScript values as far as the hooks engine looks at them. Objects and functions are
  references (an address); two numbers are kept apart from the integers because the
  comparison used for bail-outs treats them specially: \<open>VNaN\<close> and the negative zero
  \<open>VNegZero\<close> (\<open>VNum 0\<close> is the positive zero).
\<close>

datatype jsval =
  VUndefined | VNull | VBool bool | VNaN | VNegZero | VNum int | VStr string | VObj nat

text \<open>
  Modelled from the spec: \<open>shared/objectIs\<close> is imported by the hooks module and is not
  among the sources. The spec calls it a strict identity-with-NaN-equal comparison, never
  deep equality: on the value type above that is equality of the constructors (one NaN,
  objects compared by address, the two zeros distinct as in \<open>Object.is\<close>).
\<close>

definition objectIs :: "jsval \<Rightarrow> jsval \<Rightarrow> bool" where
  "objectIs x y \<longleftrightarrow> x = y"

type_synonym lanes = "32 word"

text \<open>
  Modelled from the spec: the lane algebra of \<open>ReactFiberLane\<close> is imported and not among
  the sources; the spec describes it as bitmask algebra over lanes.
\<close>

definition NoLanes :: lanes where
  "NoLanes = 0"

definition NoLane :: lanes where
  "NoLane = 0"

definition isSubsetOfLanes :: "lanes \<Rightarrow> lanes \<Rightarrow> bool" where
  "isSubsetOfLanes a b \<longleftrightarrow> a AND b = b"

definition mergeLanes :: "lanes \<Rightarrow> lanes \<Rightarrow> lanes" where
  "mergeLanes a b = a OR b"

datatype error = Invariant string | TypeError | UserError

text \<open>The messages of the invariant violations the claims are about.\<close>

definition renderedMoreHooks :: error where
  "renderedMoreHooks = Invariant ''Rendered more hooks than during the previous render.''"

definition shouldHaveQueue :: error where
  "shouldHaveQueue = Invariant
     ''Should have a queue. This is likely a bug in React. Please file an issue.''"

definition tearingError :: error where
  "tearingError = Invariant
     ''Cannot read from mutable source during the current render without tearing. This is a bug in React. Please file an issue.''"


text \<open>
  Reducers are compared by identity (\<open>update.eagerReducer === reducer\<close>), so a reducer is
  a reference; the table gives the function behind each reference. \<open>None\<close> is a reducer
  that throws.
\<close>

type_synonym reducers = "nat \<Rightarrow> jsval \<Rightarrow> jsval \<Rightarrow> jsval option"

section \<open>Objects\<close>

record update =
  lane :: lanes
  action :: jsval
  eagerReducer :: "nat option"
  eagerState :: jsval
  next_update :: "nat option"

record updateQueue =
  pending :: "nat option"
  dispatch :: "(nat \<times> nat) option"
  lastRenderedReducer :: "nat option"
  lastRenderedState :: jsval

record hook =
  memoizedState :: jsval
  baseState :: jsval
  baseQueue :: "nat option"
  queue :: "nat option"
  next_hook :: "nat option"

record effect =
  tag :: "32 word"
  create :: jsval
  destroy :: jsval
  deps :: "jsval list option"
  next_effect :: "nat option"

record functionComponentUpdateQueue =
  lastEffect :: "nat option"

record fiber =
  fiber_memoizedState :: "nat option"
  fiber_updateQueue :: "nat option"
  fiber_lanes :: lanes
  fiber_flags :: "32 word"
  fiber_alternate :: "nat option"

record mutableSource =
  getVersion :: "jsval \<Rightarrow> int"
  source :: jsval
  workInProgressVersionPrimary :: "int option"
  workInProgressVersionSecondary :: "int option"

record fiberRoot =
  mutableReadLanes :: lanes

datatype dispatcher =
  HooksDispatcherOnMount | HooksDispatcherOnUpdate | HooksDispatcherOnRerender
  | ContextOnlyDispatcher

text \<open>
  The state of the module: one store per kind of object (a reference is an address into
  the store of its type; \<open>nextAddr\<close> is the next address an object literal takes), the
  module-level variables, and what the external collaborators were told.
\<close>

record hstate =
  updates :: "nat \<Rightarrow> update"
  queues :: "nat \<Rightarrow> updateQueue"
  hooks :: "nat \<Rightarrow> hook"
  effects :: "nat \<Rightarrow> effect"
  componentQueues :: "nat \<Rightarrow> functionComponentUpdateQueue"
  fibers :: "nat \<Rightarrow> fiber"
  sources :: "nat \<Rightarrow> mutableSource"
  roots :: "nat \<Rightarrow> fiberRoot"
  nextAddr :: nat
  renderLanes :: lanes
  currentlyRenderingFiber :: "nat option"
  currentHook :: "nat option"
  workInProgressHook :: "nat option"
  didScheduleRenderPhaseUpdate :: bool
  didScheduleRenderPhaseUpdateDuringThisPass :: bool
  currentDispatcher :: "dispatcher option"
  scheduledUpdates :: "(nat \<times> lanes) list"
  skippedUpdateLanes :: lanes
  didReceiveUpdate :: bool
  workInProgressSources :: "nat list"

text \<open>The module as it is loaded: every module-level variable at its initialiser.\<close>

definition initialState :: hstate where
  "initialState =
    \<lparr>updates = (\<lambda>_. \<lparr>lane = 0, action = VUndefined, eagerReducer = None,
                     eagerState = VNull, next_update = None\<rparr>),
     queues = (\<lambda>_. \<lparr>pending = None, dispatch = None, lastRenderedReducer = None,
                    lastRenderedState = VNull\<rparr>),
     hooks = (\<lambda>_. \<lparr>memoizedState = VNull, baseState = VNull, baseQueue = None,
                   queue = None, next_hook = None\<rparr>),
     effects = (\<lambda>_. \<lparr>tag = 0, create = VUndefined, destroy = VUndefined, deps = None,
                     next_effect = None\<rparr>),
     componentQueues = (\<lambda>_. \<lparr>lastEffect = None\<rparr>),
     fibers = (\<lambda>_. \<lparr>fiber_memoizedState = None, fiber_updateQueue = None,
                    fiber_lanes = 0, fiber_flags = 0, fiber_alternate = None\<rparr>),
     sources = (\<lambda>_. \<lparr>getVersion = (\<lambda>_. 0), source = VUndefined,
                     workInProgressVersionPrimary = None,
                     workInProgressVersionSecondary = None\<rparr>),
     roots = (\<lambda>_. \<lparr>mutableReadLanes = 0\<rparr>),
     nextAddr = 0,
     renderLanes = NoLanes,
     currentlyRenderingFiber = None,
     currentHook = None,
     workInProgressHook = None,
     didScheduleRenderPhaseUpdate = False,
     didScheduleRenderPhaseUpdateDuringThisPass = False,
     currentDispatcher = None,
     scheduledUpdates = [],
     skippedUpdateLanes = 0,
     didReceiveUpdate = False,
     workInProgressSources = []\<rparr>"

section \<open>External collaborators\<close>

text \<open>
  Modelled from the spec: \<open>scheduleUpdateOnFiber\<close> (the work loop) is not among the
  sources. The spec has it as the scheduling request issued for an update, and reads the
  pending lanes of a component and of its alternate as the record of updates that were
  scheduled and not yet rendered; so the request marks the lane as pending on both and is
  logged.
\<close>

definition scheduleUpdateOnFiber :: "nat \<Rightarrow> lanes \<Rightarrow> hstate \<Rightarrow> hstate" where
  "scheduleUpdateOnFiber fiber l s =
    (let fs = fibers s;
         fs1 = fs(fiber := (fs fiber)\<lparr>fiber_lanes := mergeLanes (fiber_lanes (fs fiber)) l\<rparr>);
         fs2 = (case fiber_alternate (fs1 fiber) of
                  None \<Rightarrow> fs1
                | Some a \<Rightarrow> fs1(a := (fs1 a)\<lparr>fiber_lanes := mergeLanes (fiber_lanes (fs1 a)) l\<rparr>))
     in s\<lparr>fibers := fs2, scheduledUpdates := scheduledUpdates s @ [(fiber, l)]\<rparr>)"

text \<open>
  Modelled from the spec: \<open>markSkippedUpdateLanes\<close> notifies the scheduler of a skipped
  lane, and \<open>markWorkInProgressReceivedUpdate\<close> records that the fiber performed work.
\<close>

definition markSkippedUpdateLanes :: "lanes \<Rightarrow> hstate \<Rightarrow> hstate" where
  "markSkippedUpdateLanes l s = s\<lparr>skippedUpdateLanes := mergeLanes (skippedUpdateLanes s) l\<rparr>"

definition markWorkInProgressReceivedUpdate :: "hstate \<Rightarrow> hstate" where
  "markWorkInProgressReceivedUpdate s = s\<lparr>didReceiveUpdate := True\<rparr>"

text \<open>
  Modelled from the spec: the three accessors of \<open>ReactMutableSource\<close> (the reconciler's,
  not among the sources). A source keeps a primary and a secondary work-in-progress
  version, one per renderer; setting a version or marking a source dirty registers the
  source in the list of sources to reset.
\<close>

definition getWorkInProgressVersion :: "bool \<Rightarrow> mutableSource \<Rightarrow> int option" where
  "getWorkInProgressVersion isPrimaryRenderer m =
    (if isPrimaryRenderer then workInProgressVersionPrimary m
     else workInProgressVersionSecondary m)"

definition markSourceAsDirty :: "nat \<Rightarrow> hstate \<Rightarrow> hstate" where
  "markSourceAsDirty src s = s\<lparr>workInProgressSources := workInProgressSources s @ [src]\<rparr>"

definition setWorkInProgressVersion :: "bool \<Rightarrow> nat \<Rightarrow> int \<Rightarrow> hstate \<Rightarrow> hstate" where
  "setWorkInProgressVersion isPrimaryRenderer src v s =
    (let m = sources s src;
         m' = (if isPrimaryRenderer then m\<lparr>workInProgressVersionPrimary := Some v\<rparr>
               else m\<lparr>workInProgressVersionSecondary := Some v\<rparr>)
     in s\<lparr>sources := (sources s)(src := m'),
          workInProgressSources := workInProgressSources s @ [src]\<rparr>)"

text \<open>
  Modelled from the spec: the hook effect tags of \<open>ReactHookEffectTags\<close> are imported
  constants; \<open>HasEffect\<close> is the "has pending effect" flag of an effect's tag, the other
  two are the kinds.
\<close>

definition HookHasEffect :: "32 word" where
  "HookHasEffect = 1"

definition HookLayout :: "32 word" where
  "HookLayout = 2"

definition HookPassive :: "32 word" where
  "HookPassive = 4"

section \<open>The mutable source constructor\<close>

definition createMutableSource :: "jsval \<Rightarrow> (jsval \<Rightarrow> int) \<Rightarrow> mutableSource" where
  "createMutableSource src gv =
    \<lparr>getVersion = gv, source = src,
     workInProgressVersionPrimary = None, workInProgressVersionSecondary = None\<rparr>"

section \<open>Dependency comparison\<close>

function areHookInputsEqual_from :: "nat \<Rightarrow> jsval list \<Rightarrow> jsval list \<Rightarrow> bool" where
  "areHookInputsEqual_from i nextDeps prevDeps =
    (if i < length prevDeps \<and> i < length nextDeps then
       (if objectIs (nextDeps ! i) (prevDeps ! i)
        then areHookInputsEqual_from (Suc i) nextDeps prevDeps
        else False)
     else True)"
  by pat_completeness auto
termination
  by (relation "measure (\<lambda>(i, nextDeps, prevDeps). length prevDeps - i)") auto

declare areHookInputsEqual_from.simps [simp del]

definition areHookInputsEqual :: "jsval list \<Rightarrow> jsval list option \<Rightarrow> bool" where
  "areHookInputsEqual nextDeps prevDeps =
    (case prevDeps of
       None \<Rightarrow> False
     | Some prev \<Rightarrow> areHookInputsEqual_from 0 nextDeps prev)"

section \<open>The hook list\<close>

definition nextCurrentHook :: "hstate \<Rightarrow> error + nat option" where
  "nextCurrentHook s =
    (case currentHook s of
       None \<Rightarrow>
         (case currentlyRenderingFiber s of
            None \<Rightarrow> Inl TypeError
          | Some f \<Rightarrow>
              (case fiber_alternate (fibers s f) of
                 Some current \<Rightarrow> Inr (fiber_memoizedState (fibers s current))
               | None \<Rightarrow> Inr None))
     | Some h \<Rightarrow> Inr (next_hook (hooks s h)))"

definition nextWorkInProgressHook :: "hstate \<Rightarrow> error + nat option" where
  "nextWorkInProgressHook s =
    (case workInProgressHook s of
       None \<Rightarrow>
         (case currentlyRenderingFiber s of
            None \<Rightarrow> Inl TypeError
          | Some f \<Rightarrow> Inr (fiber_memoizedState (fibers s f)))
     | Some w \<Rightarrow> Inr (next_hook (hooks s w)))"

definition updateWorkInProgressHook :: "hstate \<Rightarrow> (error + nat) \<times> hstate" where
  "updateWorkInProgressHook s =
    (case nextCurrentHook s of
       Inl e \<Rightarrow> (Inl e, s)
     | Inr nch \<Rightarrow>
        (case nextWorkInProgressHook s of
           Inl e \<Rightarrow> (Inl e, s)
         | Inr (Some w) \<Rightarrow> (Inr w, s\<lparr>workInProgressHook := Some w, currentHook := nch\<rparr>)
         | Inr None \<Rightarrow>
            (case nch of
               None \<Rightarrow>
                 (Inl renderedMoreHooks, s)
             | Some c \<Rightarrow>
                 (let n = nextAddr s;
                      newHook = \<lparr>memoizedState = memoizedState (hooks s c),
                                 baseState = baseState (hooks s c),
                                 baseQueue = baseQueue (hooks s c),
                                 queue = queue (hooks s c),
                                 next_hook = None\<rparr>;
                      s1 = s\<lparr>currentHook := Some c, hooks := (hooks s)(n := newHook),
                             nextAddr := Suc n\<rparr>
                  in (case workInProgressHook s1 of
                        None \<Rightarrow>
                          (case currentlyRenderingFiber s1 of
                             None \<Rightarrow> (Inl TypeError, s1)
                           | Some f \<Rightarrow>
                               (Inr n,
                                s1\<lparr>fibers := (fibers s1)
                                      (f := (fibers s1 f)\<lparr>fiber_memoizedState := Some n\<rparr>),
                                    workInProgressHook := Some n\<rparr>))
                      | Some w \<Rightarrow>
                          (Inr n,
                           s1\<lparr>hooks := (hooks s1)(w := (hooks s1 w)\<lparr>next_hook := Some n\<rparr>),
                               workInProgressHook := Some n\<rparr>))))))"

section \<open>The effect list\<close>

definition pushEffect ::
  "32 word \<Rightarrow> jsval \<Rightarrow> jsval \<Rightarrow> jsval list option \<Rightarrow> hstate \<Rightarrow> (error + nat) \<times> hstate" where
  "pushEffect tg cr ds dp s =
    (let e = nextAddr s;
         s1 = s\<lparr>effects := (effects s)
                  (e := \<lparr>tag = tg, create = cr, destroy = ds, deps = dp, next_effect = None\<rparr>),
                nextAddr := Suc e\<rparr>
     in (case currentlyRenderingFiber s1 of
           None \<Rightarrow> (Inl TypeError, s1)
         | Some f \<Rightarrow>
            (case fiber_updateQueue (fibers s1 f) of
               None \<Rightarrow>
                 (let q = nextAddr s1
                  in (Inr e,
                      s1\<lparr>componentQueues := (componentQueues s1)(q := \<lparr>lastEffect = Some e\<rparr>),
                          nextAddr := Suc q,
                          fibers := (fibers s1)(f := (fibers s1 f)\<lparr>fiber_updateQueue := Some q\<rparr>),
                          effects := (effects s1)(e := (effects s1 e)\<lparr>next_effect := Some e\<rparr>)\<rparr>))
             | Some q \<Rightarrow>
                 (case lastEffect (componentQueues s1 q) of
                    None \<Rightarrow>
                      (Inr e,
                       s1\<lparr>effects := (effects s1)(e := (effects s1 e)\<lparr>next_effect := Some e\<rparr>),
                           componentQueues := (componentQueues s1)(q := \<lparr>lastEffect = Some e\<rparr>)\<rparr>)
                  | Some l \<Rightarrow>
                      (let firstEffect = next_effect (effects s1 l);
                           es1 = (effects s1)(l := (effects s1 l)\<lparr>next_effect := Some e\<rparr>);
                           es2 = es1(e := (es1 e)\<lparr>next_effect := firstEffect\<rparr>)
                       in (Inr e,
                           s1\<lparr>effects := es2,
                               componentQueues :=
                                 (componentQueues s1)(q := \<lparr>lastEffect = Some e\<rparr>)\<rparr>))))))"

datatype depsArg = DepsUndefined | DepsNull | DepsArray "jsval list"

text \<open>
  An effect hook keeps its effect object in \<open>memoizedState\<close>. When the committed hook at
  the position holds something else (a hook of another kind), the reads \<open>prevEffect.destroy\<close>
  and \<open>prevEffect.deps\<close> throw on \<open>null\<close> and \<open>undefined\<close> and give \<open>undefined\<close> on a
  primitive; \<open>areHookInputsEqual\<close> then throws on \<open>prevDeps.length\<close>, so a primitive goes
  through only with null dependencies.
\<close>

definition updateEffectImpl ::
  "32 word \<Rightarrow> 32 word \<Rightarrow> jsval \<Rightarrow> depsArg \<Rightarrow> hstate \<Rightarrow> (error + unit) \<times> hstate" where
  "updateEffectImpl fiberFlags hookFlags cr dpa s =
    (case updateWorkInProgressHook s of
       (Inl e, s1) \<Rightarrow> (Inl e, s1)
     | (Inr h, s1) \<Rightarrow>
        (let nextDeps = (case dpa of DepsArray xs \<Rightarrow> Some xs | _ \<Rightarrow> None);
             pushFresh = (\<lambda>ds.
               (case currentlyRenderingFiber s1 of
                  None \<Rightarrow> (Inl TypeError, s1)
                | Some f \<Rightarrow>
                   (let s2 = s1\<lparr>fibers := (fibers s1)
                               (f := (fibers s1 f)\<lparr>fiber_flags := fiber_flags (fibers s1 f) OR fiberFlags\<rparr>)\<rparr>
                    in (case pushEffect (HookHasEffect OR hookFlags) cr ds nextDeps s2 of
                          (Inl e, s3) \<Rightarrow> (Inl e, s3)
                        | (Inr e, s3) \<Rightarrow>
                            (Inr (), s3\<lparr>hooks := (hooks s3)(h := (hooks s3 h)\<lparr>memoizedState := VObj e\<rparr>)\<rparr>)))))
         in (case currentHook s1 of
               None \<Rightarrow> pushFresh VUndefined
             | Some c \<Rightarrow>
                (case memoizedState (hooks s1 c) of
                   VObj p \<Rightarrow>
                     (let prevEffect = effects s1 p;
                          ds = destroy prevEffect
                      in (case nextDeps of
                            None \<Rightarrow> pushFresh ds
                          | Some nd \<Rightarrow>
                              if areHookInputsEqual nd (deps prevEffect)
                              then (case pushEffect hookFlags cr ds nextDeps s1 of
                                      (Inl e, s3) \<Rightarrow> (Inl e, s3)
                                    | (Inr e, s3) \<Rightarrow> (Inr (), s3))
                              else pushFresh ds))
                 | VUndefined \<Rightarrow> (Inl TypeError, s1)
                 | VNull \<Rightarrow> (Inl TypeError, s1)
                 | _ \<Rightarrow>
                     (case nextDeps of
                        None \<Rightarrow> pushFresh VUndefined
                      | Some nd \<Rightarrow> (Inl TypeError, s1))))))"

definition updateEffect :: "32 word \<Rightarrow> jsval \<Rightarrow> depsArg \<Rightarrow> hstate \<Rightarrow> (error + unit) \<times> hstate" where
  "updateEffect fiberFlags cr dpa s = updateEffectImpl fiberFlags HookPassive cr dpa s"

definition updateLayoutEffect :: "32 word \<Rightarrow> jsval \<Rightarrow> depsArg \<Rightarrow> hstate \<Rightarrow> (error + unit) \<times> hstate" where
  "updateLayoutEffect fiberFlags cr dpa s = updateEffectImpl fiberFlags HookLayout cr dpa s"

section \<open>Enqueueing an update\<close>

text \<open>
  \<open>dispatchAction\<close> takes the lane that \<open>requestUpdateLane\<close> returned as an argument (the
  event time is passed on to the scheduler only). A reducer that throws in the eager
  computation is caught: the update is scheduled without a cached state.
\<close>

text \<open>The first statements: the update object is created and appended to the circular list.\<close>

definition enqueueUpdate :: "nat \<Rightarrow> jsval \<Rightarrow> lanes \<Rightarrow> hstate \<Rightarrow> hstate" where
  "enqueueUpdate q act l s =
    (let u = nextAddr s;
         us0 = (updates s)(u := \<lparr>lane = l, action = act, eagerReducer = None,
                                eagerState = VNull, next_update = None\<rparr>);
         us1 = (case pending (queues s q) of
                  None \<Rightarrow> us0(u := (us0 u)\<lparr>next_update := Some u\<rparr>)
                | Some p \<Rightarrow>
                    (let us = us0(u := (us0 u)\<lparr>next_update := next_update (us0 p)\<rparr>)
                     in us(p := (us p)\<lparr>next_update := Some u\<rparr>)))
     in s\<lparr>updates := us1, nextAddr := Suc u,
          queues := (queues s)(q := (queues s q)\<lparr>pending := Some u\<rparr>)\<rparr>)"

definition dispatchAction ::
  "reducers \<Rightarrow> nat \<Rightarrow> nat \<Rightarrow> jsval \<Rightarrow> lanes \<Rightarrow> hstate \<Rightarrow> hstate" where
  "dispatchAction R fiber q act l s =
    (let u = nextAddr s;
         s1 = enqueueUpdate q act l s;
         alt = fiber_alternate (fibers s1 fiber)
     in if Some fiber = currentlyRenderingFiber s1
           \<or> (alt \<noteq> None \<and> alt = currentlyRenderingFiber s1)
        then s1\<lparr>didScheduleRenderPhaseUpdateDuringThisPass := True,
                didScheduleRenderPhaseUpdate := True\<rparr>
        else if fiber_lanes (fibers s1 fiber) = NoLanes
                \<and> (case alt of None \<Rightarrow> True | Some a \<Rightarrow> fiber_lanes (fibers s1 a) = NoLanes)
        then (case lastRenderedReducer (queues s1 q) of
                None \<Rightarrow> scheduleUpdateOnFiber fiber l s1
              | Some r \<Rightarrow>
                 (let currentState = lastRenderedState (queues s1 q)
                  in (case R r currentState act of
                        None \<Rightarrow> scheduleUpdateOnFiber fiber l s1
                      | Some eager \<Rightarrow>
                         (let s2 = s1\<lparr>updates := (updates s1)
                                      (u := (updates s1 u)\<lparr>eagerReducer := Some r,
                                                            eagerState := eager\<rparr>)\<rparr>
                          in if objectIs eager currentState then s2
                             else scheduleUpdateOnFiber fiber l s2))))
        else scheduleUpdateOnFiber fiber l s1)"

section \<open>Folding the queue: updateReducer\<close>

record walkLocals =
  newState :: jsval
  newBaseState :: jsval
  newBaseQueueFirst :: "nat option"
  newBaseQueueLast :: "nat option"

text \<open>Appending a clone to the new base queue (the two places of the loop body that do).\<close>

definition appendClone :: "update \<Rightarrow> walkLocals \<Rightarrow> hstate \<Rightarrow> walkLocals \<times> hstate" where
  "appendClone clone w s =
    (let c = nextAddr s;
         s1 = s\<lparr>updates := (updates s)(c := clone), nextAddr := Suc c\<rparr>
     in (case newBaseQueueLast w of
           None \<Rightarrow>
             (w\<lparr>newBaseQueueFirst := Some c, newBaseQueueLast := Some c,
                newBaseState := newState w\<rparr>, s1)
         | Some l \<Rightarrow>
             (w\<lparr>newBaseQueueLast := Some c\<rparr>,
              s1\<lparr>updates := (updates s1)(l := (updates s1 l)\<lparr>next_update := Some c\<rparr>)\<rparr>)))"

text \<open>The body of the do-while loop of \<open>updateReducer\<close>, for the update at address \<open>u\<close>.\<close>

definition reduceStep ::
  "reducers \<Rightarrow> nat \<Rightarrow> nat \<Rightarrow> walkLocals \<Rightarrow> hstate \<Rightarrow> (error + walkLocals) \<times> hstate" where
  "reduceStep R reducer u w s =
    (let upd = updates s u;
         updateLane = lane upd
     in if \<not> isSubsetOfLanes (renderLanes s) updateLane then
          (let clone = \<lparr>lane = updateLane, action = action upd,
                        eagerReducer = eagerReducer upd, eagerState = eagerState upd,
                        next_update = None\<rparr>
           in (case appendClone clone w s of
                 (w1, s1) \<Rightarrow>
                   (case currentlyRenderingFiber s1 of
                      None \<Rightarrow> (Inl TypeError, s1)
                    | Some f \<Rightarrow>
                        (Inr w1,
                         markSkippedUpdateLanes updateLane
                           (s1\<lparr>fibers := (fibers s1)
                                 (f := (fibers s1 f)
                                    \<lparr>fiber_lanes := mergeLanes (fiber_lanes (fibers s1 f)) updateLane\<rparr>)\<rparr>)))))
        else
          (case (case newBaseQueueLast w of
                   None \<Rightarrow> (w, s)
                 | Some l \<Rightarrow>
                     appendClone \<lparr>lane = NoLane, action = action upd,
                                  eagerReducer = eagerReducer upd,
                                  eagerState = eagerState upd, next_update = None\<rparr> w s) of
             (w1, s1) \<Rightarrow>
               if eagerReducer upd = Some reducer
               then (Inr (w1\<lparr>newState := eagerState upd\<rparr>), s1)
               else (case R reducer (newState w1) (action upd) of
                       None \<Rightarrow> (Inl UserError, s1)
                     | Some v \<Rightarrow> (Inr (w1\<lparr>newState := v\<rparr>), s1))))"

text \<open>
  The do-while loop: \<open>None\<close> is a walk that never comes back to \<open>first\<close> nor reaches a
  null \<open>next\<close>.
\<close>

partial_function (option) reduceLoop ::
  "reducers \<Rightarrow> nat \<Rightarrow> nat option \<Rightarrow> nat option \<Rightarrow> walkLocals \<Rightarrow> hstate
    \<Rightarrow> ((error + walkLocals) \<times> hstate) option" where
  "reduceLoop R reducer first upd w s =
    (case upd of
       None \<Rightarrow> Some (Inl TypeError, s)
     | Some u \<Rightarrow>
        (case reduceStep R reducer u w s of
           (Inl e, s1) \<Rightarrow> Some (Inl e, s1)
         | (Inr w1, s1) \<Rightarrow>
            (let nx = next_update (updates s1 u)
             in if nx \<noteq> None \<and> nx \<noteq> first then reduceLoop R reducer first nx w1 s1
                else Some (Inr w1, s1))))"

text \<open>
  The block of \<open>updateReducer\<close> that moves the pending queue onto the base queue of the
  current hook \<open>c\<close>; it returns the local \<open>baseQueue\<close>.
\<close>

definition mergePendingQueue :: "nat \<Rightarrow> nat \<Rightarrow> hstate \<Rightarrow> nat option \<times> hstate" where
  "mergePendingQueue c q s =
    (let baseQueue0 = baseQueue (hooks s c);
         pendingQueue = pending (queues s q)
     in (case pendingQueue of
           None \<Rightarrow> (baseQueue0, s)
         | Some p \<Rightarrow>
            (let sm =
               (case baseQueue0 of
                  None \<Rightarrow> s
                | Some b \<Rightarrow>
                   (let baseFirst = next_update (updates s b);
                        pendingFirst = next_update (updates s p);
                        us1 = (updates s)(b := (updates s b)\<lparr>next_update := pendingFirst\<rparr>);
                        us2 = us1(p := (us1 p)\<lparr>next_update := baseFirst\<rparr>)
                    in s\<lparr>updates := us2\<rparr>))
             in (Some p,
                 sm\<lparr>hooks := (hooks sm)(c := (hooks sm c)\<lparr>baseQueue := Some p\<rparr>),
                     queues := (queues sm)(q := (queues sm q)\<lparr>pending := None\<rparr>)\<rparr>))))"

text \<open>
  The statements of \<open>updateReducer\<close> after the loop: the new base queue is closed into a
  circle and the results are stored on the work-in-progress hook \<open>h\<close> and on the queue.
\<close>

definition storeReducedState :: "nat \<Rightarrow> nat \<Rightarrow> walkLocals \<Rightarrow> hstate \<Rightarrow> hstate" where
  "storeReducedState h q w s4 =
    (let (nbs, s5) =
           (case newBaseQueueLast w of
              None \<Rightarrow> (newState w, s4)
            | Some l \<Rightarrow>
                (newBaseState w,
                 s4\<lparr>updates := (updates s4)
                       (l := (updates s4 l)\<lparr>next_update := newBaseQueueFirst w\<rparr>)\<rparr>));
         s6 = (if \<not> objectIs (newState w) (memoizedState (hooks s5 h))
               then markWorkInProgressReceivedUpdate s5 else s5)
     in s6\<lparr>hooks := (hooks s6)
              (h := (hooks s6 h)\<lparr>memoizedState := newState w,
                                 baseState := nbs,
                                 baseQueue := newBaseQueueLast w\<rparr>),
            queues := (queues s6)
              (q := (queues s6 q)\<lparr>lastRenderedState := newState w\<rparr>)\<rparr>)"

definition updateReducer ::
  "reducers \<Rightarrow> nat \<Rightarrow> hstate \<Rightarrow> ((error + jsval \<times> (nat \<times> nat) option) \<times> hstate) option" where
  "updateReducer R reducer s =
    (case updateWorkInProgressHook s of
       (Inl e, s1) \<Rightarrow> Some (Inl e, s1)
     | (Inr h, s1) \<Rightarrow>
        (case queue (hooks s1 h) of
           None \<Rightarrow> Some (Inl shouldHaveQueue, s1)
         | Some q \<Rightarrow>
            (let s2 = s1\<lparr>queues := (queues s1)(q := (queues s1 q)\<lparr>lastRenderedReducer := Some reducer\<rparr>)\<rparr>
             in (case currentHook s2 of
                   None \<Rightarrow> Some (Inl TypeError, s2)
                 | Some c \<Rightarrow>
                    (case mergePendingQueue c q s2 of
                       (None, s3) \<Rightarrow>
                         Some (Inr (memoizedState (hooks s3 h), dispatch (queues s3 q)), s3)
                     | (Some b, s3) \<Rightarrow>
                        (let first = next_update (updates s3 b);
                             w0 = \<lparr>newState = baseState (hooks s3 c), newBaseState = VNull,
                                   newBaseQueueFirst = None, newBaseQueueLast = None\<rparr>
                         in (case reduceLoop R reducer first first w0 s3 of
                               None \<Rightarrow> None
                             | Some (Inl e, s4) \<Rightarrow> Some (Inl e, s4)
                             | Some (Inr w, s4) \<Rightarrow>
                                (let s7 = storeReducedState h q w s4
                                 in Some (Inr (memoizedState (hooks s7 h), dispatch (queues s7 q)),
                                          s7)))))))))"

section \<open>Render-phase updates: rerenderReducer\<close>

partial_function (option) renderPhaseLoop ::
  "reducers \<Rightarrow> nat \<Rightarrow> nat option \<Rightarrow> nat option \<Rightarrow> jsval \<Rightarrow> hstate \<Rightarrow> (error + jsval) option" where
  "renderPhaseLoop R reducer first upd st s =
    (case upd of
       None \<Rightarrow> Some (Inl TypeError)
     | Some u \<Rightarrow>
        (case R reducer st (action (updates s u)) of
           None \<Rightarrow> Some (Inl UserError)
         | Some v \<Rightarrow>
            (let nx = next_update (updates s u)
             in if nx \<noteq> first then renderPhaseLoop R reducer first nx v s
                else Some (Inr v))))"

definition rerenderReducer ::
  "reducers \<Rightarrow> nat \<Rightarrow> hstate \<Rightarrow> ((error + jsval \<times> (nat \<times> nat) option) \<times> hstate) option" where
  "rerenderReducer R reducer s =
    (case updateWorkInProgressHook s of
       (Inl e, s1) \<Rightarrow> Some (Inl e, s1)
     | (Inr h, s1) \<Rightarrow>
        (case queue (hooks s1 h) of
           None \<Rightarrow>
             Some (Inl shouldHaveQueue, s1)
         | Some q \<Rightarrow>
            (let s2 = s1\<lparr>queues := (queues s1)(q := (queues s1 q)\<lparr>lastRenderedReducer := Some reducer\<rparr>)\<rparr>;
                 dsp = dispatch (queues s2 q)
             in (case pending (queues s2 q) of
                   None \<Rightarrow> Some (Inr (memoizedState (hooks s2 h), dsp), s2)
                 | Some lastRenderPhaseUpdate \<Rightarrow>
                    (let s3 = s2\<lparr>queues := (queues s2)(q := (queues s2 q)\<lparr>pending := None\<rparr>)\<rparr>;
                         firstRenderPhaseUpdate = next_update (updates s3 lastRenderPhaseUpdate)
                     in (case renderPhaseLoop R reducer firstRenderPhaseUpdate
                                firstRenderPhaseUpdate (memoizedState (hooks s3 h)) s3 of
                           None \<Rightarrow> None
                         | Some (Inl e) \<Rightarrow> Some (Inl e, s3)
                         | Some (Inr v) \<Rightarrow>
                            (let s4 = (if \<not> objectIs v (memoizedState (hooks s3 h))
                                       then markWorkInProgressReceivedUpdate s3 else s3);
                                 s5 = s4\<lparr>hooks := (hooks s4)(h := (hooks s4 h)\<lparr>memoizedState := v\<rparr>)\<rparr>;
                                 s6 = (if baseQueue (hooks s5 h) = None
                                       then s5\<lparr>hooks := (hooks s5)(h := (hooks s5 h)\<lparr>baseState := v\<rparr>)\<rparr>
                                       else s5);
                                 s7 = s6\<lparr>queues := (queues s6)(q := (queues s6 q)\<lparr>lastRenderedState := v\<rparr>)\<rparr>
                             in Some (Inr (v, dsp), s7))))))))"

section \<open>Rolling back after a throw\<close>

partial_function (option) clearPendingQueues :: "nat option \<Rightarrow> hstate \<Rightarrow> hstate option" where
  "clearPendingQueues hk s =
    (case hk of
       None \<Rightarrow> Some s
     | Some h \<Rightarrow>
        (let s1 = (case queue (hooks s h) of
                     None \<Rightarrow> s
                   | Some q \<Rightarrow> s\<lparr>queues := (queues s)(q := (queues s q)\<lparr>pending := None\<rparr>)\<rparr>)
         in clearPendingQueues (next_hook (hooks s1 h)) s1))"

definition resetHooksAfterThrow :: "hstate \<Rightarrow> ((error + unit) \<times> hstate) option" where
  "resetHooksAfterThrow s =
    (let s1 = s\<lparr>currentDispatcher := Some ContextOnlyDispatcher\<rparr>;
         fin = (\<lambda>t. t\<lparr>renderLanes := NoLanes, currentlyRenderingFiber := None,
                       currentHook := None, workInProgressHook := None,
                       didScheduleRenderPhaseUpdateDuringThisPass := False\<rparr>)
     in if didScheduleRenderPhaseUpdate s1 then
          (case currentlyRenderingFiber s1 of
             None \<Rightarrow> Some (Inl TypeError, s1)
           | Some f \<Rightarrow>
              (case clearPendingQueues (fiber_memoizedState (fibers s1 f)) s1 of
                 None \<Rightarrow> None
               | Some s2 \<Rightarrow> Some (Inr (), fin (s2\<lparr>didScheduleRenderPhaseUpdate := False\<rparr>))))
        else Some (Inr (), fin s1))"

section \<open>Reading a mutable source\<close>

text \<open>
  The version of a store is a number (the spec's version number); \<open>getSnapshot\<close> is the
  caller's selector, applied to the store.
\<close>

definition readFromUnsubcribedMutableSource ::
  "bool \<Rightarrow> nat \<Rightarrow> nat \<Rightarrow> (jsval \<Rightarrow> jsval) \<Rightarrow> hstate \<Rightarrow> (error + jsval) \<times> hstate" where
  "readFromUnsubcribedMutableSource isPrimaryRenderer root src getSnapshot s =
    (let version = getVersion (sources s src) (source (sources s src));
         currentRenderVersion = getWorkInProgressVersion isPrimaryRenderer (sources s src);
         (isSafeToReadFromSource, s1) =
           (case currentRenderVersion of
              Some v \<Rightarrow> (v = version, s)
            | None \<Rightarrow>
               (let safe = isSubsetOfLanes (renderLanes s) (mutableReadLanes (roots s root))
                in if safe then (safe, setWorkInProgressVersion isPrimaryRenderer src version s)
                   else (safe, s)))
     in if isSafeToReadFromSource then (Inr (getSnapshot (source (sources s1 src))), s1)
        else (Inl tearingError, markSourceAsDirty src s1))"

section \<open>The render-phase loop\<close>



text \<open>What each pass of the do-while loop does before it invokes the component again.\<close>

definition startRerender :: "nat \<Rightarrow> hstate \<Rightarrow> hstate" where
  "startRerender workInProgress s =
    s\<lparr>didScheduleRenderPhaseUpdateDuringThisPass := False,
      currentHook := None, workInProgressHook := None,
      fibers := (fibers s)(workInProgress := (fibers s workInProgress)\<lparr>fiber_updateQueue := None\<rparr>),
      currentDispatcher := Some HooksDispatcherOnRerender\<rparr>"



definition startRender :: "nat option \<Rightarrow> nat \<Rightarrow> lanes \<Rightarrow> hstate \<Rightarrow> hstate" where
  "startRender current workInProgress nextRenderLanes s =
    (let s1 = s\<lparr>renderLanes := nextRenderLanes,
                currentlyRenderingFiber := Some workInProgress,
                fibers := (fibers s)(workInProgress := (fibers s workInProgress)
                   \<lparr>fiber_memoizedState := None, fiber_updateQueue := None,
                    fiber_lanes := NoLanes\<rparr>)\<rparr>
     in s1\<lparr>currentDispatcher :=
            (if (case current of None \<Rightarrow> True
                 | Some c \<Rightarrow> fiber_memoizedState (fibers s1 c) = None)
             then Some HooksDispatcherOnMount else Some HooksDispatcherOnUpdate)\<rparr>)"



section \<open>Vocabulary of the statements\<close>

subsection \<open>Render attempts\<close>





subsection \<open>Example states and components\<close>

text \<open>
  A work-in-progress fiber 0 being rendered, its committed alternate 2 with one hook (an
  effect hook whose effect 0 has the dependencies \<open>[1, NaN]\<close>).
\<close>

definition exampleEffectState :: hstate where
  "exampleEffectState =
    initialState
      \<lparr>fibers := (fibers initialState)
          (0 := \<lparr>fiber_memoizedState = None, fiber_updateQueue = None, fiber_lanes = 0,
                 fiber_flags = 0, fiber_alternate = Some 2\<rparr>,
           2 := \<lparr>fiber_memoizedState = Some 0, fiber_updateQueue = None, fiber_lanes = 0,
                 fiber_flags = 0, fiber_alternate = Some 0\<rparr>),
       hooks := (hooks initialState)
          (0 := \<lparr>memoizedState = VObj 0, baseState = VNull, baseQueue = None,
                 queue = None, next_hook = None\<rparr>),
       effects := (effects initialState)
          (0 := \<lparr>tag = 5, create = VObj 7, destroy = VObj 8,
                 deps = Some [VNum 1, VNaN], next_effect = Some 0\<rparr>),
       nextAddr := 10,
       currentlyRenderingFiber := Some 0\<rparr>"

text \<open>A reducer table: every reducer adds a number to a number, and throws on anything else.\<close>

definition sumReducers :: reducers where
  "sumReducers r st act =
    (case (st, act) of (VNum a, VNum b) \<Rightarrow> Some (VNum (a + b)) | _ \<Rightarrow> None)"

text \<open>A fiber 0 outside of any render, with a drained reducer queue 0 in state 0.\<close>

definition exampleQueueState :: hstate where
  "exampleQueueState =
    initialState
      \<lparr>queues := (queues initialState)
          (0 := \<lparr>pending = None, dispatch = Some (0, 0), lastRenderedReducer = Some 0,
                 lastRenderedState = VNum 0\<rparr>),
       nextAddr := 10\<rparr>"

text \<open>A store at version 7 behind source 0, rendered at lane 1 with no pending mutation.\<close>

definition exampleSourceState :: hstate where
  "exampleSourceState =
    initialState
      \<lparr>sources := (sources initialState)(0 := createMutableSource (VObj 3) (\<lambda>_. 7)),
       renderLanes := 1\<rparr>"

text \<open>The same store after a mutation: its version is 8.\<close>

definition mutateStore :: "hstate \<Rightarrow> hstate" where
  "mutateStore s = s\<lparr>sources := (sources s)(0 := (sources s 0)\<lparr>getVersion := (\<lambda>_. 8)\<rparr>)\<rparr>"




subsection \<open>Queues in the store\<close>

text \<open>
  \<open>updatePath U x as y\<close>: following \<open>next\<close> from the reference \<open>x\<close> visits the updates
  \<open>as\<close> in order and arrives at \<open>y\<close>. A queue pointer designates the last update of a
  circular list; \<open>queueList U p xs\<close> says that the queue behind \<open>p\<close> holds the updates at
  the addresses \<open>xs\<close>, first to last. \<open>contents\<close> are the updates without their links.
\<close>

fun updatePath :: "(nat \<Rightarrow> update) \<Rightarrow> nat option \<Rightarrow> nat list \<Rightarrow> nat option \<Rightarrow> bool" where
  "updatePath U x [] y \<longleftrightarrow> x = y"
| "updatePath U x (a # as) y \<longleftrightarrow> x = Some a \<and> updatePath U (next_update (U a)) as y"

definition circularQueue :: "(nat \<Rightarrow> update) \<Rightarrow> nat \<Rightarrow> nat list \<Rightarrow> bool" where
  "circularQueue U l xs \<longleftrightarrow>
     xs \<noteq> [] \<and> distinct xs \<and> last xs = l
     \<and> updatePath U (next_update (U l)) xs (next_update (U l))"

definition queueList :: "(nat \<Rightarrow> update) \<Rightarrow> nat option \<Rightarrow> nat list \<Rightarrow> bool" where
  "queueList U p xs \<longleftrightarrow> (case p of None \<Rightarrow> xs = [] | Some l \<Rightarrow> circularQueue U l xs)"

definition detach :: "update \<Rightarrow> update" where
  "detach u = u\<lparr>next_update := None\<rparr>"

definition contents :: "(nat \<Rightarrow> update) \<Rightarrow> nat list \<Rightarrow> update list" where
  "contents U xs = map (\<lambda>a. detach (U a)) xs"

text \<open>
  The walk of the spec (4.2, step 2) as a function on the list of updates: the accumulated
  state, the new base state and the clones appended to the new base queue so far.
  \<open>None\<close> is a reducer that throws.
\<close>

definition rebaseStep ::
  "reducers \<Rightarrow> nat \<Rightarrow> lanes \<Rightarrow> update \<Rightarrow> jsval \<times> jsval \<times> update list
    \<Rightarrow> (jsval \<times> jsval \<times> update list) option" where
  "rebaseStep R reducer rl u acc =
    (case acc of (st, bst, cl) \<Rightarrow>
       if \<not> isSubsetOfLanes rl (lane u)
       then Some (st, (if cl = [] then st else bst), cl @ [detach u])
       else (let cl' = (if cl = [] then [] else cl @ [detach (u\<lparr>lane := NoLane\<rparr>)])
             in if eagerReducer u = Some reducer then Some (eagerState u, bst, cl')
                else (case R reducer st (action u) of
                        None \<Rightarrow> None
                      | Some v \<Rightarrow> Some (v, bst, cl'))))"

fun rebase ::
  "reducers \<Rightarrow> nat \<Rightarrow> lanes \<Rightarrow> update list \<Rightarrow> jsval \<times> jsval \<times> update list
    \<Rightarrow> (jsval \<times> jsval \<times> update list) option" where
  "rebase R reducer rl [] acc = Some acc"
| "rebase R reducer rl (u # us) acc =
    (case rebaseStep R reducer rl u acc of
       None \<Rightarrow> None
     | Some acc' \<Rightarrow> rebase R reducer rl us acc')"

text \<open>
  The new base queue while the walk builds it: clones at consecutive fresh addresses from
  \<open>n0\<close>, each linked to the next, the last one not yet linked back.
\<close>

definition cloneChain :: "(nat \<Rightarrow> update) \<Rightarrow> nat \<Rightarrow> update list \<Rightarrow> bool" where
  "cloneChain U n0 cl \<longleftrightarrow>
     (\<forall>i<length cl. U (n0 + i)
        = (cl ! i)\<lparr>next_update := (if Suc i < length cl then Some (n0 + Suc i) else None)\<rparr>)"

definition walkInv :: "nat \<Rightarrow> update list \<Rightarrow> walkLocals \<Rightarrow> hstate \<Rightarrow> bool" where
  "walkInv n0 cl w s \<longleftrightarrow>
     nextAddr s = n0 + length cl
     \<and> newBaseQueueFirst w = (if cl = [] then None else Some n0)
     \<and> newBaseQueueLast w = (if cl = [] then None else Some (n0 + length cl - 1))
     \<and> cloneChain (updates s) n0 cl"

text \<open>
  A render that is about to process the reducer hook \<open>c\<close> of the committed list: the
  work-in-progress list has no hook for the position yet, the hook's queue is \<open>q\<close>, its
  base queue holds the updates \<open>bs\<close> and the pending queue the updates \<open>ps\<close>, and every
  object in sight was allocated before \<open>nextAddr\<close>.
\<close>

definition reducerHookReady ::
  "hstate \<Rightarrow> nat \<Rightarrow> nat \<Rightarrow> nat \<Rightarrow> nat list \<Rightarrow> nat list \<Rightarrow> bool" where
  "reducerHookReady s f c q bs ps \<longleftrightarrow>
     currentlyRenderingFiber s = Some f
     \<and> nextWorkInProgressHook s = Inr None
     \<and> nextCurrentHook s = Inr (Some c)
     \<and> c < nextAddr s
     \<and> workInProgressHook s \<noteq> Some c
     \<and> (\<forall>w. workInProgressHook s = Some w \<longrightarrow> w < nextAddr s)
     \<and> queue (hooks s c) = Some q
     \<and> queueList (updates s) (baseQueue (hooks s c)) bs
     \<and> queueList (updates s) (pending (queues s q)) ps
     \<and> distinct (bs @ ps)
     \<and> (\<forall>a\<in>set (bs @ ps). a < nextAddr s)"


subsection \<open>What a render makes of a queue\<close>

text \<open>
  Applying updates in order, each by its cached eager state when the cached reducer is the
  reducer of this render, else by the reducer; \<open>None\<close> when the reducer throws.
\<close>

fun applyUpdates :: "reducers \<Rightarrow> nat \<Rightarrow> jsval \<Rightarrow> update list \<Rightarrow> jsval option" where
  "applyUpdates R reducer st [] = Some st"
| "applyUpdates R reducer st (u # us) =
    (case (if eagerReducer u = Some reducer then Some (eagerState u)
           else R reducer st (action u)) of
       None \<Rightarrow> None
     | Some v \<Rightarrow> applyUpdates R reducer v us)"

text \<open>The left fold of the reducer over a list of actions.\<close>

fun applyActions :: "reducers \<Rightarrow> nat \<Rightarrow> jsval \<Rightarrow> jsval list \<Rightarrow> jsval option" where
  "applyActions R reducer st [] = Some st"
| "applyActions R reducer st (a # as) =
    (case R reducer st a of
       None \<Rightarrow> None
     | Some v \<Rightarrow> applyActions R reducer v as)"

text \<open>
  The new base queue the spec asks for: from the first skipped update on, every update in
  order, a skipped one as it is and an applied one with its lane cleared.
\<close>

definition rebasedQueue :: "lanes \<Rightarrow> update list \<Rightarrow> update list" where
  "rebasedQueue rl xs =
    map (\<lambda>u. detach (if isSubsetOfLanes rl (lane u) then u\<lparr>lane := NoLane\<rparr> else u))
      (dropWhile (\<lambda>u. isSubsetOfLanes rl (lane u)) xs)"

text \<open>
  A committed fiber 2 with one reducer hook 3 (state 0, queue 4) and three pending updates
  5, 6, 7 (add 1 at lane 1, add 10 at lane 2, add 100 at lane 1), at the start of a render
  of its work-in-progress fiber 0 at lane 1.
\<close>

definition exampleRenderState :: hstate where
  "exampleRenderState =
    initialState
      \<lparr>updates := (updates initialState)
          (5 := \<lparr>lane = 1, action = VNum 1, eagerReducer = None, eagerState = VNull,
                 next_update = Some 6\<rparr>,
           6 := \<lparr>lane = 2, action = VNum 10, eagerReducer = None, eagerState = VNull,
                 next_update = Some 7\<rparr>,
           7 := \<lparr>lane = 1, action = VNum 100, eagerReducer = None, eagerState = VNull,
                 next_update = Some 5\<rparr>),
       queues := (queues initialState)
          (4 := \<lparr>pending = Some 7, dispatch = Some (2, 4), lastRenderedReducer = Some 0,
                 lastRenderedState = VNum 0\<rparr>),
       hooks := (hooks initialState)
          (3 := \<lparr>memoizedState = VNum 0, baseState = VNum 0, baseQueue = None,
                 queue = Some 4, next_hook = None\<rparr>),
       fibers := (fibers initialState)
          (0 := \<lparr>fiber_memoizedState = None, fiber_updateQueue = None, fiber_lanes = 0,
                 fiber_flags = 0, fiber_alternate = Some 2\<rparr>,
           2 := \<lparr>fiber_memoizedState = Some 3, fiber_updateQueue = None, fiber_lanes = 3,
                 fiber_flags = 0, fiber_alternate = Some 0\<rparr>),
       nextAddr := 10,
       renderLanes := 1,
       currentlyRenderingFiber := Some 0\<rparr>"

subsection \<open>Hook lists\<close>

text \<open>\<open>hookList H x hs\<close>: the null-terminated list of hooks from the reference \<open>x\<close> is \<open>hs\<close>.\<close>

fun hookList :: "(nat \<Rightarrow> hook) \<Rightarrow> nat option \<Rightarrow> nat list \<Rightarrow> bool" where
  "hookList H x [] \<longleftrightarrow> x = None"
| "hookList H x (a # as) \<longleftrightarrow> x = Some a \<and> hookList H (next_hook (H a)) as"

text \<open>\<open>hookPath H x hs y\<close>: following \<open>next\<close> from \<open>x\<close> visits the hooks \<open>hs\<close> and arrives at \<open>y\<close>.\<close>

fun hookPath :: "(nat \<Rightarrow> hook) \<Rightarrow> nat option \<Rightarrow> nat list \<Rightarrow> nat option \<Rightarrow> bool" where
  "hookPath H x [] y \<longleftrightarrow> x = y"
| "hookPath H x (a # as) y \<longleftrightarrow> x = Some a \<and> hookPath H (next_hook (H a)) as y"

text \<open>
  The first \<open>k\<close> calls of \<open>updateWorkInProgressHook\<close> that a component makes in one
  invocation: the hooks they return, in order, or the first error.
\<close>

fun hookCalls :: "nat \<Rightarrow> hstate \<Rightarrow> (error + nat list) \<times> hstate" where
  "hookCalls 0 s = (Inr [], s)"
| "hookCalls (Suc k) s =
    (case hookCalls k s of
       (Inl e, s1) \<Rightarrow> (Inl e, s1)
     | (Inr hs, s1) \<Rightarrow>
         (case updateWorkInProgressHook s1 of
            (Inl e, s2) \<Rightarrow> (Inl e, s2)
          | (Inr h, s2) \<Rightarrow> (Inr (hs @ [h]), s2)))"

text \<open>
  The start of an invocation of a component on an update: the fiber \<open>f\<close> is rendered, its
  committed alternate \<open>cur\<close> has the hooks \<open>cs\<close>, the work-in-progress list holds the hooks
  \<open>ws\<close> that earlier passes of this render made (none in the first pass), and the two
  cursors are at the head.
\<close>

definition passStart :: "hstate \<Rightarrow> nat \<Rightarrow> nat \<Rightarrow> nat list \<Rightarrow> nat list \<Rightarrow> bool" where
  "passStart s f cur cs ws \<longleftrightarrow>
     currentlyRenderingFiber s = Some f \<and> fiber_alternate (fibers s f) = Some cur \<and> f \<noteq> cur
     \<and> currentHook s = None \<and> workInProgressHook s = None
     \<and> hookList (hooks s) (fiber_memoizedState (fibers s cur)) cs
     \<and> hookList (hooks s) (fiber_memoizedState (fibers s f)) ws
     \<and> length ws \<le> length cs
     \<and> set cs \<inter> set ws = {}
     \<and> (\<forall>a\<in>set (cs @ ws). a < nextAddr s)"

text \<open>
  A committed fiber 2 with the two hooks 3 (a reducer hook, queue 4) and 5, and the start
  of the re-render pass of a render of its work-in-progress fiber 0 whose first pass made
  one hook call (the work-in-progress hook 8) and dispatched an action to queue 4.
\<close>

definition exampleHookCommitted :: hstate where
  "exampleHookCommitted =
    initialState
      \<lparr>queues := (queues initialState)
          (4 := \<lparr>pending = None, dispatch = Some (2, 4), lastRenderedReducer = Some 0,
                 lastRenderedState = VNum 0\<rparr>),
       fibers := (fibers initialState)
          (0 := \<lparr>fiber_memoizedState = None, fiber_updateQueue = None, fiber_lanes = 0,
                 fiber_flags = 0, fiber_alternate = Some 2\<rparr>,
           2 := \<lparr>fiber_memoizedState = Some 3, fiber_updateQueue = None, fiber_lanes = 0,
                 fiber_flags = 0, fiber_alternate = Some 0\<rparr>),
       hooks := (hooks initialState)
          (3 := \<lparr>memoizedState = VNum 0, baseState = VNum 0, baseQueue = None,
                 queue = Some 4, next_hook = Some 5\<rparr>,
           5 := \<lparr>memoizedState = VStr ''a'', baseState = VNull, baseQueue = None,
                 queue = None, next_hook = None\<rparr>),
       nextAddr := 8\<rparr>"

definition exampleHookPassState :: hstate where
  "exampleHookPassState =
    startRerender 0
      (dispatchAction sumReducers 0 4 (VNum 7) 1
        (snd (updateWorkInProgressHook (startRender (Some 2) 0 1 exampleHookCommitted))))"

text \<open>
  A committed fiber 2 with two reducer hooks: hook 3 (queue 4) with the three pending
  updates 5, 6, 7 of the running example and hook 8 (queue 9) with one pending update 12;
  and the start of a render of its work-in-progress fiber 0 at lane 1.
\<close>

definition exampleTwoHookState :: hstate where
  "exampleTwoHookState =
    initialState
      \<lparr>updates := (updates initialState)
          (5 := \<lparr>lane = 1, action = VNum 1, eagerReducer = None, eagerState = VNull,
                 next_update = Some 6\<rparr>,
           6 := \<lparr>lane = 2, action = VNum 10, eagerReducer = None, eagerState = VNull,
                 next_update = Some 7\<rparr>,
           7 := \<lparr>lane = 1, action = VNum 100, eagerReducer = None, eagerState = VNull,
                 next_update = Some 5\<rparr>,
           12 := \<lparr>lane = 1, action = VNum 1000, eagerReducer = None, eagerState = VNull,
                  next_update = Some 12\<rparr>),
       queues := (queues initialState)
          (4 := \<lparr>pending = Some 7, dispatch = Some (2, 4), lastRenderedReducer = Some 0,
                 lastRenderedState = VNum 0\<rparr>,
           9 := \<lparr>pending = Some 12, dispatch = Some (2, 9), lastRenderedReducer = Some 0,
                 lastRenderedState = VNum 0\<rparr>),
       hooks := (hooks initialState)
          (3 := \<lparr>memoizedState = VNum 0, baseState = VNum 0, baseQueue = None,
                 queue = Some 4, next_hook = Some 8\<rparr>,
           8 := \<lparr>memoizedState = VNum 0, baseState = VNum 0, baseQueue = None,
                 queue = Some 9, next_hook = None\<rparr>),
       fibers := (fibers initialState)
          (0 := \<lparr>fiber_memoizedState = None, fiber_updateQueue = None, fiber_lanes = 3,
                 fiber_flags = 0, fiber_alternate = Some 2\<rparr>,
           2 := \<lparr>fiber_memoizedState = Some 3, fiber_updateQueue = None, fiber_lanes = 3,
                 fiber_flags = 0, fiber_alternate = Some 0\<rparr>),
       nextAddr := 20\<rparr>"

definition exampleTwoHookRender :: hstate where
  "exampleTwoHookRender = startRender (Some 2) 0 1 exampleTwoHookState"

subsection \<open>Dispatching\<close>

text \<open>
  A sequence of \<open>dispatchAction\<close> calls on one queue, each with its action and its lane, and
  the update object a call creates when it computes no eager state.
\<close>

definition dispatchAll ::
  "reducers \<Rightarrow> nat \<Rightarrow> nat \<Rightarrow> (jsval \<times> lanes) list \<Rightarrow> hstate \<Rightarrow> hstate" where
  "dispatchAll R fiber q ds s = foldl (\<lambda>t d. dispatchAction R fiber q (fst d) (snd d) t) s ds"

definition dispatchedUpdate :: "jsval \<times> lanes \<Rightarrow> update" where
  "dispatchedUpdate d = \<lparr>lane = snd d, action = fst d, eagerReducer = None,
                          eagerState = VNull, next_update = None\<rparr>"

text \<open>
  The example render after its first pass over a drained queue: the work-in-progress fiber 0
  has the clone 8 of hook 3, still in state 0.
\<close>

definition exampleRerenderState :: hstate where
  "exampleRerenderState =
    exampleRenderState
      \<lparr>queues := (queues exampleRenderState)
          (4 := \<lparr>pending = None, dispatch = Some (2, 4), lastRenderedReducer = Some 0,
                 lastRenderedState = VNum 0\<rparr>),
       hooks := (hooks exampleRenderState)
          (8 := \<lparr>memoizedState = VNum 0, baseState = VNum 0, baseQueue = None,
                 queue = Some 4, next_hook = None\<rparr>),
       fibers := (fibers exampleRenderState)
          (0 := \<lparr>fiber_memoizedState = Some 8, fiber_updateQueue = None, fiber_lanes = 0,
                 fiber_flags = 0, fiber_alternate = Some 2\<rparr>),
       currentHook := Some 3,
       workInProgressHook := Some 8\<rparr>"

subsection \<open>Dispatches and render attempts over time\<close>












section \<open>Effects: the dependency comparison and the update path\<close>

lemma areHookInputsEqual_from_iff:
  "areHookInputsEqual_from i nextDeps prevDeps \<longleftrightarrow>
     (\<forall>j. i \<le> j \<and> j < length prevDeps \<and> j < length nextDeps \<longrightarrow> objectIs (nextDeps ! j) (prevDeps ! j))"
proof (induction i nextDeps prevDeps rule: areHookInputsEqual_from.induct)
  case (1 i nextDeps prevDeps)
  show ?case
  proof (cases "i < length prevDeps \<and> i < length nextDeps")
    case False
    then show ?thesis
      by (subst areHookInputsEqual_from.simps) auto
  next
    case inr: True
    show ?thesis
    proof (cases "objectIs (nextDeps ! i) (prevDeps ! i)")
      case False
      with inr show ?thesis
        by (subst areHookInputsEqual_from.simps) auto
    next
      case True
      have "areHookInputsEqual_from i nextDeps prevDeps
            = areHookInputsEqual_from (Suc i) nextDeps prevDeps"
        using inr True by (subst areHookInputsEqual_from.simps) simp
      also have "\<dots> \<longleftrightarrow> (\<forall>j. Suc i \<le> j \<and> j < length prevDeps \<and> j < length nextDeps
                      \<longrightarrow> objectIs (nextDeps ! j) (prevDeps ! j))"
        using "1.IH" inr True by simp
      also have "\<dots> \<longleftrightarrow> (\<forall>j. i \<le> j \<and> j < length prevDeps \<and> j < length nextDeps
                      \<longrightarrow> objectIs (nextDeps ! j) (prevDeps ! j))"
        using True by (metis Suc_leI le_neq_implies_less Suc_leD)
      finally show ?thesis .
    qed
  qed
qed

lemma areHookInputsEqual_iff:
  "areHookInputsEqual nextDeps prevDeps \<longleftrightarrow>
     (\<exists>prev. prevDeps = Some prev \<and>
        (\<forall>j < min (length prev) (length nextDeps). objectIs (nextDeps ! j) (prev ! j)))"
  by (cases prevDeps) (auto simp: areHookInputsEqual_def areHookInputsEqual_from_iff)

lemma pushEffect_pushed:
  assumes "currentlyRenderingFiber s = Some f"
  shows "fst (pushEffect tg cr ds dp s) = Inr (nextAddr s)"
    and "tag (effects (snd (pushEffect tg cr ds dp s)) (nextAddr s)) = tg"
    and "create (effects (snd (pushEffect tg cr ds dp s)) (nextAddr s)) = cr"
    and "destroy (effects (snd (pushEffect tg cr ds dp s)) (nextAddr s)) = ds"
    and "deps (effects (snd (pushEffect tg cr ds dp s)) (nextAddr s)) = dp"
    and "currentlyRenderingFiber (snd (pushEffect tg cr ds dp s)) = Some f"
    and "fiber_flags (fibers (snd (pushEffect tg cr ds dp s)) f) = fiber_flags (fibers s f)"
    and "hooks (snd (pushEffect tg cr ds dp s)) = hooks s"
    and "\<exists>q. fiber_updateQueue (fibers (snd (pushEffect tg cr ds dp s)) f) = Some q
           \<and> lastEffect (componentQueues (snd (pushEffect tg cr ds dp s)) q) = Some (nextAddr s)"
  using assms
  by (auto simp: pushEffect_def Let_def split: option.splits)


lemma tag_passive: "HookPassive AND HookHasEffect = 0" "(HookHasEffect OR HookPassive) AND HookHasEffect = HookHasEffect"
  "HookLayout AND HookHasEffect = 0" "(HookHasEffect OR HookLayout) AND HookHasEffect = HookHasEffect"
  by (simp_all add: HookPassive_def HookHasEffect_def HookLayout_def)

text \<open>
  Claim C8. The dependency comparison of an update-phase effect registration is true
  exactly when the previous dependency list is non-null and the two lists agree, under
  \<open>objectIs\<close>, at every position below the shorter length. For an effect hook whose
  committed hook holds the previous effect: when the comparison is true the effect is
  pushed again with the hook flags alone (for \<open>updateEffect\<close> and \<open>updateLayoutEffect\<close>
  the \<open>HasEffect\<close> bit of its tag is clear) and the fiber's flags are left alone; in every
  other case, and always when the dependency list is null or undefined, it is pushed with
  \<open>HasEffect\<close> set. In both cases the previous cleanup callback is carried over.
\<close>
theorem updateEffect_dependency_bailout:
  assumes "fst (updateWorkInProgressHook s) = Inr h"
    and "currentHook (snd (updateWorkInProgressHook s)) = Some c"
    and "memoizedState (hooks (snd (updateWorkInProgressHook s)) c) = VObj p"
    and "currentlyRenderingFiber (snd (updateWorkInProgressHook s)) = Some f"
  shows
    "(areHookInputsEqual nextDeps prevDeps \<longleftrightarrow>
        (\<exists>prev. prevDeps = Some prev \<and>
           (\<forall>j < min (length prev) (length nextDeps). objectIs (nextDeps ! j) (prev ! j))))
     \<and> (let s1 = snd (updateWorkInProgressHook s);
             prevEffect = effects s1 p;
             e = nextAddr s1;
             r = updateEffectImpl fiberFlags hookFlags cr dpa s;
             unchanged = (case dpa of DepsArray nd \<Rightarrow> areHookInputsEqual nd (deps prevEffect)
                          | _ \<Rightarrow> False)
         in fst r = Inr ()
            \<and> create (effects (snd r) e) = cr
            \<and> destroy (effects (snd r) e) = destroy prevEffect
            \<and> tag (effects (snd r) e) = (if unchanged then hookFlags else HookHasEffect OR hookFlags)
            \<and> (\<exists>q. fiber_updateQueue (fibers (snd r) f) = Some q
                    \<and> lastEffect (componentQueues (snd r) q) = Some e)
            \<and> fiber_flags (fibers (snd r) f)
                 = (if unchanged then fiber_flags (fibers s1 f) else fiber_flags (fibers s1 f) OR fiberFlags)
            \<and> tag (effects (snd (updateEffect fiberFlags cr dpa s)) e) AND HookHasEffect
                 = (if unchanged then 0 else HookHasEffect)
            \<and> tag (effects (snd (updateLayoutEffect fiberFlags cr dpa s)) e) AND HookHasEffect
                 = (if unchanged then 0 else HookHasEffect))"
proof -
  obtain s1 where s1: "updateWorkInProgressHook s = (Inr h, s1)"
    using assms(1) by (cases "updateWorkInProgressHook s") auto
  have c: "currentHook s1 = Some c" and p: "memoizedState (hooks s1 c) = VObj p"
    and f: "currentlyRenderingFiber s1 = Some f"
    using assms s1 by auto
  define s2 where "s2 = s1\<lparr>fibers := (fibers s1)
      (f := (fibers s1 f)\<lparr>fiber_flags := fiber_flags (fibers s1 f) OR fiberFlags\<rparr>)\<rparr>"
  have f2: "currentlyRenderingFiber s2 = Some f" and n2: "nextAddr s2 = nextAddr s1"
    and ff2: "fiber_flags (fibers s2 f) = fiber_flags (fibers s1 f) OR fiberFlags"
    and e2: "effects s2 = effects s1"
    by (simp_all add: s2_def f)
  define pe where "pe = (\<lambda>tg ds dp st. snd (pushEffect tg cr ds dp st))"
  have pe1: "pushEffect tg cr ds dp s1 = (Inr (nextAddr s1), pe tg ds dp s1)" for tg ds dp
    using pushEffect_pushed(1)[OF f, of tg cr ds dp]
    by (simp add: pe_def prod_eq_iff)
  have pe2: "pushEffect tg cr ds dp s2 = (Inr (nextAddr s1), pe tg ds dp s2)" for tg ds dp
    using pushEffect_pushed(1)[OF f2, of tg cr ds dp] n2
    by (simp add: pe_def prod_eq_iff)
  have P1: "tag (effects (pe tg ds dp s1) (nextAddr s1)) = tg"
      "create (effects (pe tg ds dp s1) (nextAddr s1)) = cr"
      "destroy (effects (pe tg ds dp s1) (nextAddr s1)) = ds"
      "fiber_flags (fibers (pe tg ds dp s1) f) = fiber_flags (fibers s1 f)"
      "\<exists>q. fiber_updateQueue (fibers (pe tg ds dp s1) f) = Some q
           \<and> lastEffect (componentQueues (pe tg ds dp s1) q) = Some (nextAddr s1)" for tg ds dp
    using pushEffect_pushed[OF f, of tg cr ds dp] by (simp_all add: pe_def)
  have P2: "tag (effects (pe tg ds dp s2) (nextAddr s1)) = tg"
      "create (effects (pe tg ds dp s2) (nextAddr s1)) = cr"
      "destroy (effects (pe tg ds dp s2) (nextAddr s1)) = ds"
      "fiber_flags (fibers (pe tg ds dp s2) f) = fiber_flags (fibers s1 f) OR fiberFlags"
      "\<exists>q. fiber_updateQueue (fibers (pe tg ds dp s2) f) = Some q
           \<and> lastEffect (componentQueues (pe tg ds dp s2) q) = Some (nextAddr s1)" for tg ds dp
    using pushEffect_pushed[OF f2, of tg cr ds dp] by (simp_all add: pe_def n2 ff2)
  define nd where "nd = (case dpa of DepsArray xs \<Rightarrow> Some xs | _ \<Rightarrow> None)"
  define unchanged where "unchanged =
    (case dpa of DepsArray nd \<Rightarrow> areHookInputsEqual nd (deps (effects s1 p)) | _ \<Rightarrow> False)"
  have impl: "updateEffectImpl fiberFlags hf cr dpa s =
      (if unchanged then (Inr (), pe hf (destroy (effects s1 p)) nd s1)
       else (Inr (), (pe (HookHasEffect OR hf) (destroy (effects s1 p)) nd s2)
              \<lparr>hooks := (hooks (pe (HookHasEffect OR hf) (destroy (effects s1 p)) nd s2))
                  (h := (hooks (pe (HookHasEffect OR hf) (destroy (effects s1 p)) nd s2) h)
                     \<lparr>memoizedState := VObj (nextAddr s1)\<rparr>)\<rparr>))" for hf
    by (simp add: updateEffectImpl_def s1 c p f Let_def s2_def[symmetric] pe1 pe2
          nd_def unchanged_def split: depsArg.splits)
  have main: "fst (updateEffectImpl fiberFlags hf cr dpa s) = Inr ()
     \<and> create (effects (snd (updateEffectImpl fiberFlags hf cr dpa s)) (nextAddr s1)) = cr
     \<and> destroy (effects (snd (updateEffectImpl fiberFlags hf cr dpa s)) (nextAddr s1))
          = destroy (effects s1 p)
     \<and> tag (effects (snd (updateEffectImpl fiberFlags hf cr dpa s)) (nextAddr s1))
          = (if unchanged then hf else HookHasEffect OR hf)
     \<and> (\<exists>q. fiber_updateQueue (fibers (snd (updateEffectImpl fiberFlags hf cr dpa s)) f) = Some q
           \<and> lastEffect (componentQueues (snd (updateEffectImpl fiberFlags hf cr dpa s)) q)
               = Some (nextAddr s1))
     \<and> fiber_flags (fibers (snd (updateEffectImpl fiberFlags hf cr dpa s)) f)
          = (if unchanged then fiber_flags (fibers s1 f) else fiber_flags (fibers s1 f) OR fiberFlags)"
    for hf
    by (simp add: impl P1 P2)
  have sn: "snd (updateWorkInProgressHook s) = s1"
    by (simp add: s1)
  show ?thesis
    unfolding areHookInputsEqual_iff[symmetric] Let_def updateEffect_def updateLayoutEffect_def
      sn unchanged_def[symmetric]
    using main[of hookFlags] main[of HookPassive] main[of HookLayout]
    by (simp add: tag_passive)
qed

lemma exampleEffectState_simps:
  "currentlyRenderingFiber exampleEffectState = Some 0"
  "currentHook exampleEffectState = None"
  "workInProgressHook exampleEffectState = None"
  "nextAddr exampleEffectState = 10"
  "fibers exampleEffectState 0 = \<lparr>fiber_memoizedState = None, fiber_updateQueue = None, fiber_lanes = 0,
                 fiber_flags = 0, fiber_alternate = Some 2\<rparr>"
  "fibers exampleEffectState 2 = \<lparr>fiber_memoizedState = Some 0, fiber_updateQueue = None, fiber_lanes = 0,
                 fiber_flags = 0, fiber_alternate = Some 0\<rparr>"
  "hooks exampleEffectState 0 = \<lparr>memoizedState = VObj 0, baseState = VNull, baseQueue = None,
                 queue = None, next_hook = None\<rparr>"
  "effects exampleEffectState 0 = \<lparr>tag = 5, create = VObj 7, destroy = VObj 8,
                 deps = Some [VNum 1, VNaN], next_effect = Some 0\<rparr>"
  by (simp_all add: exampleEffectState_def initialState_def)

lemma exampleEffectState_cursor:
  "nextCurrentHook exampleEffectState = Inr (Some 0)"
  "nextWorkInProgressHook exampleEffectState = Inr None"
  by (simp_all add: nextCurrentHook_def nextWorkInProgressHook_def exampleEffectState_simps)

lemma exampleEffectState_hook:
  "fst (updateWorkInProgressHook exampleEffectState) = Inr 10"
  "currentHook (snd (updateWorkInProgressHook exampleEffectState)) = Some 0"
  "workInProgressHook (snd (updateWorkInProgressHook exampleEffectState)) = Some 10"
  "currentlyRenderingFiber (snd (updateWorkInProgressHook exampleEffectState)) = Some 0"
  "nextAddr (snd (updateWorkInProgressHook exampleEffectState)) = 11"
  "hooks (snd (updateWorkInProgressHook exampleEffectState)) 0 = hooks exampleEffectState 0"
  "hooks (snd (updateWorkInProgressHook exampleEffectState)) 10 = hooks exampleEffectState 0"
  "effects (snd (updateWorkInProgressHook exampleEffectState)) = effects exampleEffectState"
  by (simp_all add: updateWorkInProgressHook_def exampleEffectState_cursor Let_def
        exampleEffectState_simps)

lemma areHookInputsEqual_examples:
  "areHookInputsEqual [VNum 1, VNaN] (Some [VNum 1, VNaN])"
  "\<not> areHookInputsEqual [VNum 2, VNaN] (Some [VNum 1, VNaN])"
  by (simp_all add: areHookInputsEqual_def areHookInputsEqual_from.simps objectIs_def)

theorem updateEffect_dependency_bailout_witness:
  "fst (updateWorkInProgressHook exampleEffectState) = Inr 10
   \<and> currentHook (snd (updateWorkInProgressHook exampleEffectState)) = Some 0
   \<and> memoizedState (hooks (snd (updateWorkInProgressHook exampleEffectState)) 0) = VObj 0
   \<and> currentlyRenderingFiber (snd (updateWorkInProgressHook exampleEffectState)) = Some 0
   \<and> tag (effects (snd (updateEffect 0 (VObj 9) (DepsArray [VNum 1, VNaN]) exampleEffectState)) 11)
        AND HookHasEffect = 0
   \<and> destroy (effects (snd (updateEffectImpl 0 HookPassive (VObj 9) (DepsArray [VNum 1, VNaN])
        exampleEffectState)) 11) = VObj 8
   \<and> tag (effects (snd (updateEffect 0 (VObj 9) (DepsArray [VNum 2, VNaN]) exampleEffectState)) 11)
        AND HookHasEffect = HookHasEffect
   \<and> tag (effects (snd (updateEffect 0 (VObj 9) DepsNull exampleEffectState)) 11)
        AND HookHasEffect = HookHasEffect"
  using updateEffect_dependency_bailout[of exampleEffectState 10 0 0 0 "[]" None 0 HookPassive
          "VObj 9" "DepsArray [VNum 1, VNaN]"]
        updateEffect_dependency_bailout[of exampleEffectState 10 0 0 0 "[]" None 0 HookPassive
          "VObj 9" "DepsArray [VNum 2, VNaN]"]
        updateEffect_dependency_bailout[of exampleEffectState 10 0 0 0 "[]" None 0 HookPassive
          "VObj 9" DepsNull]
  by (simp add: exampleEffectState_hook exampleEffectState_simps areHookInputsEqual_examples
        Let_def)

section \<open>Reading a mutable source without tearing\<close>

lemma readFrom_recorded:
  assumes "getWorkInProgressVersion prim (sources s src) = Some v"
  shows "readFromUnsubcribedMutableSource prim root src getSnapshot s =
    (if v = getVersion (sources s src) (source (sources s src))
     then (Inr (getSnapshot (source (sources s src))), s)
     else (Inl tearingError,
           markSourceAsDirty src s))"
  unfolding readFromUnsubcribedMutableSource_def Let_def assms
  by simp

lemma readFrom_first:
  assumes "getWorkInProgressVersion prim (sources s src) = None"
  shows "readFromUnsubcribedMutableSource prim root src getSnapshot s =
    (if isSubsetOfLanes (renderLanes s) (mutableReadLanes (roots s root))
     then (Inr (getSnapshot (source (sources s src))),
           setWorkInProgressVersion prim src (getVersion (sources s src) (source (sources s src))) s)
     else (Inl tearingError,
           markSourceAsDirty src s))"
  unfolding readFromUnsubcribedMutableSource_def Let_def assms
  by (simp add: setWorkInProgressVersion_def Let_def)

lemma setWorkInProgressVersion_get:
  "getWorkInProgressVersion prim (sources (setWorkInProgressVersion prim src v s) src) = Some v"
  by (simp add: setWorkInProgressVersion_def getWorkInProgressVersion_def Let_def)

lemma markSourceAsDirty_simps:
  "src \<in> set (workInProgressSources (markSourceAsDirty src s))"
  "sources (markSourceAsDirty src s) = sources s"
  by (simp_all add: markSourceAsDirty_def)

text \<open>
  Claim C4. \<open>readFromUnsubcribedMutableSource\<close> returns a snapshot exactly when the read is
  safe: a work-in-progress version is recorded and equals the store's current version, or
  none is recorded and the render lanes include \<open>root.mutableReadLanes\<close>. A safe read
  returns \<open>getSnapshot\<close> of the store, with the version recorded (newly so when there was
  none). Every other read marks the source dirty, leaves the recorded versions alone and
  throws the tearing error.
\<close>
theorem readFromUnsubcribedMutableSource_safe_iff:
  "(let m = sources s src;
        version = getVersion m (source m);
        wip = getWorkInProgressVersion prim m;
        safe = (case wip of
                  Some v \<Rightarrow> v = version
                | None \<Rightarrow> isSubsetOfLanes (renderLanes s) (mutableReadLanes (roots s root)));
        r = readFromUnsubcribedMutableSource prim root src getSnapshot s
    in ((\<exists>snapshot. fst r = Inr snapshot) \<longleftrightarrow> safe)
       \<and> (safe \<longrightarrow>
             fst r = Inr (getSnapshot (source m))
             \<and> getWorkInProgressVersion prim (sources (snd r) src) = Some version
             \<and> snd r = (if wip = None then setWorkInProgressVersion prim src version s else s))
       \<and> (\<not> safe \<longrightarrow>
             fst r = Inl tearingError
             \<and> snd r = markSourceAsDirty src s
             \<and> src \<in> set (workInProgressSources (snd r))
             \<and> sources (snd r) = sources s))"
proof (cases "getWorkInProgressVersion prim (sources s src)")
  case None
  show ?thesis
    unfolding Let_def readFrom_first[OF None] None
    by (simp add: setWorkInProgressVersion_get markSourceAsDirty_simps)
next
  case (Some v)
  show ?thesis
    unfolding Let_def readFrom_recorded[OF Some]
    using Some by (simp add: markSourceAsDirty_simps)
qed

lemma exampleSourceState_simps:
  "sources exampleSourceState 0 = createMutableSource (VObj 3) (\<lambda>_. 7)"
  "renderLanes exampleSourceState = 1"
  "roots exampleSourceState 0 = \<lparr>mutableReadLanes = 0\<rparr>"
  by (simp_all add: exampleSourceState_def initialState_def)

theorem readFromUnsubcribedMutableSource_safe_iff_witness:
  "fst (readFromUnsubcribedMutableSource True 0 0 (\<lambda>x. x) exampleSourceState) = Inr (VObj 3)
   \<and> getWorkInProgressVersion True
        (sources (snd (readFromUnsubcribedMutableSource True 0 0 (\<lambda>x. x) exampleSourceState)) 0)
        = Some 7
   \<and> fst (readFromUnsubcribedMutableSource True 0 0 (\<lambda>x. x)
        (mutateStore (snd (readFromUnsubcribedMutableSource True 0 0 (\<lambda>x. x) exampleSourceState))))
        = Inl tearingError
   \<and> 0 \<in> set (workInProgressSources (snd (readFromUnsubcribedMutableSource True 0 0 (\<lambda>x. x)
        (mutateStore (snd (readFromUnsubcribedMutableSource True 0 0 (\<lambda>x. x) exampleSourceState))))))"
proof -
  define s1 where "s1 = snd (readFromUnsubcribedMutableSource True 0 0 (\<lambda>x. x) exampleSourceState)"
  have first: "fst (readFromUnsubcribedMutableSource True 0 0 (\<lambda>x. x) exampleSourceState) = Inr (VObj 3)"
    and s1eq: "s1 = setWorkInProgressVersion True 0 7 exampleSourceState"
    using readFromUnsubcribedMutableSource_safe_iff[of exampleSourceState 0 True 0 "\<lambda>x. x"]
    by (simp_all add: s1_def Let_def exampleSourceState_simps createMutableSource_def
          getWorkInProgressVersion_def isSubsetOfLanes_def)
  have m: "sources (mutateStore s1) 0 =
      \<lparr>getVersion = (\<lambda>_. 8), source = VObj 3, workInProgressVersionPrimary = Some 7,
       workInProgressVersionSecondary = None\<rparr>"
    by (simp add: s1eq mutateStore_def setWorkInProgressVersion_def Let_def
          exampleSourceState_simps createMutableSource_def)
  have second: "fst (readFromUnsubcribedMutableSource True 0 0 (\<lambda>x. x) (mutateStore s1)) = Inl tearingError
     \<and> 0 \<in> set (workInProgressSources (snd (readFromUnsubcribedMutableSource True 0 0 (\<lambda>x. x)
        (mutateStore s1))))"
    using readFromUnsubcribedMutableSource_safe_iff[of "mutateStore s1" 0 True 0 "\<lambda>x. x"]
    by (simp add: Let_def m getWorkInProgressVersion_def markSourceAsDirty_simps)
  have rec: "getWorkInProgressVersion True (sources s1 0) = Some 7"
    by (simp add: s1eq setWorkInProgressVersion_get)
  show ?thesis
    using first second rec unfolding s1_def by simp
qed

section \<open>The eager fast path of dispatchAction\<close>

lemma scheduleUpdateOnFiber_simps [simp]:
  "updates (scheduleUpdateOnFiber f l s) = updates s"
  "queues (scheduleUpdateOnFiber f l s) = queues s"
  "hooks (scheduleUpdateOnFiber f l s) = hooks s"
  "nextAddr (scheduleUpdateOnFiber f l s) = nextAddr s"
  "scheduledUpdates (scheduleUpdateOnFiber f l s) = scheduledUpdates s @ [(f, l)]"
  "currentlyRenderingFiber (scheduleUpdateOnFiber f l s) = currentlyRenderingFiber s"
  "didScheduleRenderPhaseUpdate (scheduleUpdateOnFiber f l s) = didScheduleRenderPhaseUpdate s"
  "didScheduleRenderPhaseUpdateDuringThisPass (scheduleUpdateOnFiber f l s)
     = didScheduleRenderPhaseUpdateDuringThisPass s"
  by (simp_all add: scheduleUpdateOnFiber_def Let_def split: option.splits)

text \<open>
  Claim C3, as amended. For a \<open>dispatchAction\<close> on a fiber that is not rendering (nor is
  its alternate), with no pending lanes on the fiber and its alternate, and a queue whose
  \<open>lastRenderedReducer\<close> is set: the update is appended; if the reducer returns, its result
  on \<open>lastRenderedState\<close> is cached on the update with the reducer, and when the result is
  \<open>objectIs\<close>-equal to the prior state nothing is scheduled (otherwise the update is
  scheduled); if the reducer throws, the update carries no eager state and is scheduled.
\<close>
theorem dispatchAction_eager_state:
  assumes "currentlyRenderingFiber s \<noteq> Some fiber"
    and "fiber_alternate (fibers s fiber) = None
         \<or> fiber_alternate (fibers s fiber) \<noteq> currentlyRenderingFiber s"
    and "fiber_lanes (fibers s fiber) = NoLanes"
    and "case fiber_alternate (fibers s fiber) of None \<Rightarrow> True
         | Some a \<Rightarrow> fiber_lanes (fibers s a) = NoLanes"
    and "lastRenderedReducer (queues s q) = Some r"
  shows
    "(let s' = dispatchAction R fiber q act l s;
          u = updates s' (nextAddr s);
          currentState = lastRenderedState (queues s q)
      in pending (queues s' q) = Some (nextAddr s) \<and> action u = act \<and> lane u = l
         \<and> (case R r currentState act of
               Some eager \<Rightarrow>
                 eagerReducer u = Some r \<and> eagerState u = eager
                 \<and> (if objectIs eager currentState
                     then scheduledUpdates s' = scheduledUpdates s \<and> fibers s' = fibers s
                     else scheduledUpdates s' = scheduledUpdates s @ [(fiber, l)])
             | None \<Rightarrow>
                 eagerReducer u = None
                 \<and> scheduledUpdates s' = scheduledUpdates s @ [(fiber, l)]))"
  using assms
  by (auto simp: dispatchAction_def enqueueUpdate_def Let_def split: option.splits)

lemma exampleQueueState_simps:
  "currentlyRenderingFiber exampleQueueState = None"
  "nextAddr exampleQueueState = 10"
  "fibers exampleQueueState 0 = \<lparr>fiber_memoizedState = None, fiber_updateQueue = None,
      fiber_lanes = 0, fiber_flags = 0, fiber_alternate = None\<rparr>"
  "queues exampleQueueState 0 = \<lparr>pending = None, dispatch = Some (0, 0),
      lastRenderedReducer = Some 0, lastRenderedState = VNum 0\<rparr>"
  "scheduledUpdates exampleQueueState = []"
  by (simp_all add: exampleQueueState_def initialState_def)

theorem dispatchAction_eager_state_witness:
  "currentlyRenderingFiber exampleQueueState \<noteq> Some 0
   \<and> fiber_alternate (fibers exampleQueueState 0) = None
   \<and> fiber_lanes (fibers exampleQueueState 0) = NoLanes
   \<and> lastRenderedReducer (queues exampleQueueState 0) = Some 0
   \<and> eagerReducer (updates (dispatchAction sumReducers 0 0 (VNum 0) 1 exampleQueueState) 10) = Some 0
   \<and> eagerState (updates (dispatchAction sumReducers 0 0 (VNum 0) 1 exampleQueueState) 10) = VNum 0
   \<and> scheduledUpdates (dispatchAction sumReducers 0 0 (VNum 0) 1 exampleQueueState) = []
   \<and> eagerState (updates (dispatchAction sumReducers 0 0 (VNum 5) 1 exampleQueueState) 10) = VNum 5
   \<and> scheduledUpdates (dispatchAction sumReducers 0 0 (VNum 5) 1 exampleQueueState) = [(0, 1)]"
  using dispatchAction_eager_state[of exampleQueueState 0 0 0 sumReducers "VNum 0" 1]
        dispatchAction_eager_state[of exampleQueueState 0 0 0 sumReducers "VNum 5" 1]
  by (simp add: exampleQueueState_simps Let_def sumReducers_def NoLanes_def objectIs_def)

text \<open>
  The claim as stated (every such call caches an eager state on the update) fails for a
  reducer that throws on the action: the error is caught, nothing is cached, and the
  update is scheduled.
\<close>
theorem dispatchAction_eager_throw_counterexample:
  "currentlyRenderingFiber exampleQueueState \<noteq> Some 0
   \<and> fiber_alternate (fibers exampleQueueState 0) = None
   \<and> fiber_lanes (fibers exampleQueueState 0) = NoLanes
   \<and> lastRenderedReducer (queues exampleQueueState 0) = Some 0
   \<and> sumReducers 0 (lastRenderedState (queues exampleQueueState 0)) (VStr ''x'') = None
   \<and> eagerReducer (updates (dispatchAction sumReducers 0 0 (VStr ''x'') 1 exampleQueueState) 10) = None
   \<and> eagerState (updates (dispatchAction sumReducers 0 0 (VStr ''x'') 1 exampleQueueState) 10) = VNull
   \<and> scheduledUpdates (dispatchAction sumReducers 0 0 (VStr ''x'') 1 exampleQueueState) = [(0, 1)]"
  by (simp add: dispatchAction_def enqueueUpdate_def exampleQueueState_simps Let_def sumReducers_def NoLanes_def)

section \<open>The walk of updateReducer refines the walk of the spec\<close>

lemma detach_simps [simp]:
  "lane (detach u) = lane u" "action (detach u) = action u"
  "eagerReducer (detach u) = eagerReducer u" "eagerState (detach u) = eagerState u"
  "next_update (detach u) = None" "detach (detach u) = detach u"
  "detach (u\<lparr>next_update := x\<rparr>) = detach u"
  by (simp_all add: detach_def)

lemma detach_eq:
  "detach u = \<lparr>lane = lane u, action = action u, eagerReducer = eagerReducer u,
               eagerState = eagerState u, next_update = None\<rparr>"
  by (simp add: detach_def)

lemma detach_lane:
  "detach (u\<lparr>lane := l\<rparr>) = \<lparr>lane = l, action = action u, eagerReducer = eagerReducer u,
               eagerState = eagerState u, next_update = None\<rparr>"
  by (simp add: detach_def)

lemma cloneChain_Nil [simp]: "cloneChain U n0 []"
  by (simp add: cloneChain_def)

lemma cloneChain_first:
  "cloneChain (U(n0 := detach x)) n0 [detach x]"
  by (simp add: cloneChain_def detach_def)


lemma cloneChain_snoc:
  assumes "cloneChain U n0 cl" and "cl \<noteq> []"
  shows "cloneChain ((U(n0 + length cl := detach x))
            (n0 + length cl - 1 := ((U(n0 + length cl := detach x)) (n0 + length cl - 1))
               \<lparr>next_update := Some (n0 + length cl)\<rparr>))
          n0 (cl @ [detach x])"
proof -
  obtain m where m: "length cl = Suc m"
    using assms(2) by (cases cl) auto
  define U' where "U' = (U(n0 + length cl := detach x))
            (n0 + length cl - 1 := ((U(n0 + length cl := detach x)) (n0 + length cl - 1))
               \<lparr>next_update := Some (n0 + length cl)\<rparr>)"
  have U': "U' = (U(Suc (n0 + m) := detach x))
      (n0 + m := (U (n0 + m))\<lparr>next_update := Some (Suc (n0 + m))\<rparr>)"
    by (simp add: U'_def m)
  have old: "U (n0 + i) = (cl ! i)\<lparr>next_update := (if i < m then Some (n0 + Suc i) else None)\<rparr>"
    if "i \<le> m" for i
    using assms(1) that m by (simp add: cloneChain_def)
  have c1: "U' (n0 + Suc m) = (detach x)\<lparr>next_update := None\<rparr>"
    unfolding U' by simp
  have c2: "U' (n0 + m) = (cl ! m)\<lparr>next_update := Some (n0 + Suc m)\<rparr>"
    unfolding U' using old[of m] by simp
  have c3: "U' (n0 + i) = (cl ! i)\<lparr>next_update := Some (n0 + Suc i)\<rparr>" if "i < m" for i
    unfolding U' using old[of i] that by simp
  have "U' (n0 + i) = ((cl @ [detach x]) ! i)
        \<lparr>next_update := if i < Suc m then Some (n0 + Suc i) else None\<rparr>"
    if "i < Suc (Suc m)" for i
  proof -
    have "i = Suc m \<or> i = m \<or> i < m"
      using that by arith
    then show ?thesis
    proof (elim disjE)
      assume "i = Suc m"
      then show ?thesis using m c1 by (simp add: nth_append)
    next
      assume "i = m"
      then show ?thesis using m c2 by (simp add: nth_append)
    next
      assume "i < m"
      then show ?thesis using m c3[of i] by (simp add: nth_append)
    qed
  qed
  then show ?thesis
    unfolding U'_def[symmetric] by (simp add: cloneChain_def m)
qed

lemma appendClone_refines:
  assumes inv: "walkInv n0 cl w s"
  shows "\<exists>U. appendClone (detach x) w s =
          (w\<lparr>newBaseQueueFirst := Some n0, newBaseQueueLast := Some (n0 + length cl),
              newBaseState := (if cl = [] then newState w else newBaseState w)\<rparr>,
           s\<lparr>updates := U, nextAddr := n0 + length (cl @ [detach x])\<rparr>)
        \<and> cloneChain U n0 (cl @ [detach x]) \<and> (\<forall>a<n0. U a = updates s a)"
proof (cases "cl = []")
  case True
  have n: "nextAddr s = n0" and last: "newBaseQueueLast w = None"
    using inv True by (simp_all add: walkInv_def)
  have "appendClone (detach x) w s =
          (w\<lparr>newBaseQueueFirst := Some n0, newBaseQueueLast := Some (n0 + length cl),
              newBaseState := (if cl = [] then newState w else newBaseState w)\<rparr>,
           s\<lparr>updates := (updates s)(n0 := detach x), nextAddr := n0 + length (cl @ [detach x])\<rparr>)"
    by (simp add: appendClone_def Let_def n last True)
  moreover have "cloneChain ((updates s)(n0 := detach x)) n0 (cl @ [detach x])"
    using cloneChain_first[of "updates s" n0 x] True by simp
  moreover have "\<forall>a<n0. ((updates s)(n0 := detach x)) a = updates s a"
    by simp
  ultimately show ?thesis by blast
next
  case False
  have last: "newBaseQueueLast w = Some (n0 + length cl - 1)" and n: "nextAddr s = n0 + length cl"
    and first: "newBaseQueueFirst w = Some n0" and ch: "cloneChain (updates s) n0 cl"
    using inv False by (simp_all add: walkInv_def)
  obtain m where m: "length cl = Suc m"
    using False by (cases cl) auto
  define U where "U = ((updates s)(n0 + length cl := detach x))
            (n0 + length cl - 1 := (((updates s)(n0 + length cl := detach x)) (n0 + length cl - 1))
               \<lparr>next_update := Some (n0 + length cl)\<rparr>)"
  have w: "w\<lparr>newBaseQueueLast := Some (n0 + length cl)\<rparr>
      = w\<lparr>newBaseQueueFirst := Some n0, newBaseQueueLast := Some (n0 + length cl),
              newBaseState := (if cl = [] then newState w else newBaseState w)\<rparr>"
    using first False by simp
  have "appendClone (detach x) w s =
          (w\<lparr>newBaseQueueLast := Some (n0 + length cl)\<rparr>,
           s\<lparr>updates := U, nextAddr := n0 + length (cl @ [detach x])\<rparr>)"
    by (simp add: appendClone_def Let_def last n U_def)
  moreover have "cloneChain U n0 (cl @ [detach x])"
    unfolding U_def using ch False by (rule cloneChain_snoc)
  moreover have "\<forall>a<n0. U a = updates s a"
    by (simp add: U_def m)
  ultimately show ?thesis
    unfolding w by blast
qed

lemma reduceStep_refines:
  assumes inv: "walkInv n0 cl w s" and u: "u < n0"
    and f: "currentlyRenderingFiber s = Some f"
    and step: "rebaseStep R reducer (renderLanes s) (detach (updates s u))
                 (newState w, newBaseState w, cl) = Some (st', bst', cl')"
  shows "\<exists>U X L. reduceStep R reducer u w s =
          (Inr \<lparr>newState = st', newBaseState = bst',
                newBaseQueueFirst = (if cl' = [] then None else Some n0),
                newBaseQueueLast = (if cl' = [] then None else Some (n0 + length cl' - 1))\<rparr>,
           s\<lparr>updates := U, nextAddr := n0 + length cl',
              fibers := (fibers s)(f := (fibers s f)\<lparr>fiber_lanes := X\<rparr>),
              skippedUpdateLanes := L\<rparr>)
        \<and> cloneChain U n0 cl' \<and> (\<forall>a<n0. U a = updates s a)"
proof (cases "isSubsetOfLanes (renderLanes s) (lane (updates s u))")
  case False
  have res: "st' = newState w" "bst' = (if cl = [] then newState w else newBaseState w)"
    "cl' = cl @ [detach (updates s u)]"
    using step False by (simp_all add: rebaseStep_def)
  obtain U where U: "appendClone (detach (updates s u)) w s =
          (w\<lparr>newBaseQueueFirst := Some n0, newBaseQueueLast := Some (n0 + length cl),
              newBaseState := (if cl = [] then newState w else newBaseState w)\<rparr>,
           s\<lparr>updates := U, nextAddr := n0 + length (cl @ [detach (updates s u)])\<rparr>)"
      and ch: "cloneChain U n0 (cl @ [detach (updates s u)])" and old: "\<forall>a<n0. U a = updates s a"
    using appendClone_refines[OF inv, of "updates s u"] by blast
  have "reduceStep R reducer u w s =
          (Inr \<lparr>newState = st', newBaseState = bst',
                newBaseQueueFirst = (if cl' = [] then None else Some n0),
                newBaseQueueLast = (if cl' = [] then None else Some (n0 + length cl' - 1))\<rparr>,
           s\<lparr>updates := U, nextAddr := n0 + length cl',
              fibers := (fibers s)(f := (fibers s f)
                 \<lparr>fiber_lanes := mergeLanes (fiber_lanes (fibers s f)) (lane (updates s u))\<rparr>),
              skippedUpdateLanes := mergeLanes (skippedUpdateLanes s) (lane (updates s u))\<rparr>)"
    unfolding reduceStep_def Let_def detach_eq[symmetric]
    by (simp add: False U f res markSkippedUpdateLanes_def)
  then show ?thesis
    using ch old res(3) by blast
next
  case True
  define v where "v = (if eagerReducer (updates s u) = Some reducer then Some (eagerState (updates s u))
                       else R reducer (newState w) (action (updates s u)))"
  have res: "v = Some st'" "bst' = newBaseState w"
    "cl' = (if cl = [] then [] else cl @ [detach ((updates s u)\<lparr>lane := NoLane\<rparr>)])"
    using step True by (auto simp: rebaseStep_def v_def Let_def split: if_splits option.splits)
  have idem: "s\<lparr>updates := updates s, nextAddr := nextAddr s,
              fibers := (fibers s)(f := (fibers s f)\<lparr>fiber_lanes := fiber_lanes (fibers s f)\<rparr>),
              skippedUpdateLanes := skippedUpdateLanes s\<rparr> = s"
    by simp
  show ?thesis
  proof (cases "cl = []")
    case cl: True
    have n: "nextAddr s = n0" and last: "newBaseQueueLast w = None"
      and first: "newBaseQueueFirst w = None"
      using inv cl by (simp_all add: walkInv_def)
    have "reduceStep R reducer u w s =
          (Inr \<lparr>newState = st', newBaseState = bst',
                newBaseQueueFirst = (if cl' = [] then None else Some n0),
                newBaseQueueLast = (if cl' = [] then None else Some (n0 + length cl' - 1))\<rparr>,
           s\<lparr>updates := updates s, nextAddr := n0 + length cl',
              fibers := (fibers s)(f := (fibers s f)\<lparr>fiber_lanes := fiber_lanes (fibers s f)\<rparr>),
              skippedUpdateLanes := skippedUpdateLanes s\<rparr>)"
      using res True cl
      by (cases "eagerReducer (updates s u) = Some reducer")
         (auto simp: reduceStep_def Let_def last first v_def n[symmetric] split: option.splits)
    moreover have "cloneChain (updates s) n0 cl'"
      using res(3) cl by simp
    ultimately show ?thesis by blast
  next
    case cl: False
    have last: "newBaseQueueLast w = Some (n0 + length cl - 1)"
      using inv cl by (simp add: walkInv_def)
    obtain U where U: "appendClone (detach ((updates s u)\<lparr>lane := NoLane\<rparr>)) w s =
          (w\<lparr>newBaseQueueFirst := Some n0, newBaseQueueLast := Some (n0 + length cl),
              newBaseState := (if cl = [] then newState w else newBaseState w)\<rparr>,
           s\<lparr>updates := U,
              nextAddr := n0 + length (cl @ [detach ((updates s u)\<lparr>lane := NoLane\<rparr>)])\<rparr>)"
      and ch: "cloneChain U n0 (cl @ [detach ((updates s u)\<lparr>lane := NoLane\<rparr>)])"
      and old: "\<forall>a<n0. U a = updates s a"
      using appendClone_refines[OF inv, of "(updates s u)\<lparr>lane := NoLane\<rparr>"] by blast
    have "reduceStep R reducer u w s =
          (Inr \<lparr>newState = st', newBaseState = bst',
                newBaseQueueFirst = (if cl' = [] then None else Some n0),
                newBaseQueueLast = (if cl' = [] then None else Some (n0 + length cl' - 1))\<rparr>,
           s\<lparr>updates := U, nextAddr := n0 + length cl',
              fibers := (fibers s)(f := (fibers s f)\<lparr>fiber_lanes := fiber_lanes (fibers s f)\<rparr>),
              skippedUpdateLanes := skippedUpdateLanes s\<rparr>)"
      unfolding reduceStep_def Let_def detach_lane[symmetric]
      using res True cl
      by (cases "eagerReducer (updates s u) = Some reducer")
         (auto simp: last U v_def split: option.splits)
    moreover have "cl' = cl @ [detach ((updates s u)\<lparr>lane := NoLane\<rparr>)]"
      using res(3) cl by simp
    ultimately show ?thesis
      using ch old by blast
  qed
qed

lemma updatePath_cong:
  assumes "\<forall>a\<in>set as. next_update (U' a) = next_update (U a)"
  shows "updatePath U' x as y = updatePath U x as y"
  using assms by (induction as arbitrary: x) auto

lemma contents_cong:
  assumes "\<forall>a\<in>set as. U' a = U a"
  shows "contents U' as = contents U as"
  using assms by (simp add: contents_def)

lemma reduceLoop_refines:
  assumes path: "updatePath (updates s) (Some r) (r # rs) e"
    and stop: "e = None \<or> e = first"
    and nostop: "\<forall>a\<in>set rs. Some a \<noteq> first"
    and inv: "walkInv n0 cl w s"
    and old: "\<forall>a\<in>set (r # rs). a < n0"
    and f: "currentlyRenderingFiber s = Some f"
    and pure: "rebase R reducer (renderLanes s) (contents (updates s) (r # rs))
                 (newState w, newBaseState w, cl) = Some (st', bst', cl')"
  shows "\<exists>U X L. reduceLoop R reducer first (Some r) w s =
          Some (Inr \<lparr>newState = st', newBaseState = bst',
                newBaseQueueFirst = (if cl' = [] then None else Some n0),
                newBaseQueueLast = (if cl' = [] then None else Some (n0 + length cl' - 1))\<rparr>,
           s\<lparr>updates := U, nextAddr := n0 + length cl',
              fibers := (fibers s)(f := (fibers s f)\<lparr>fiber_lanes := X\<rparr>),
              skippedUpdateLanes := L\<rparr>)
        \<and> cloneChain U n0 cl' \<and> (\<forall>a<n0. U a = updates s a)"
  using assms
proof (induction rs arbitrary: r w s cl)
  case Nil
  have step: "rebaseStep R reducer (renderLanes s) (detach (updates s r))
                 (newState w, newBaseState w, cl) = Some (st', bst', cl')"
    using Nil.prems(7) by (simp add: contents_def split: option.splits)
  obtain U X L where red: "reduceStep R reducer r w s =
          (Inr \<lparr>newState = st', newBaseState = bst',
                newBaseQueueFirst = (if cl' = [] then None else Some n0),
                newBaseQueueLast = (if cl' = [] then None else Some (n0 + length cl' - 1))\<rparr>,
           s\<lparr>updates := U, nextAddr := n0 + length cl',
              fibers := (fibers s)(f := (fibers s f)\<lparr>fiber_lanes := X\<rparr>),
              skippedUpdateLanes := L\<rparr>)"
      and ch: "cloneChain U n0 cl'" and same: "\<forall>a<n0. U a = updates s a"
  proof -
    have "r < n0" using Nil.prems(5) by simp
    from reduceStep_refines[OF Nil.prems(4) this Nil.prems(6) step] that show ?thesis
      by blast
  qed
  have nx: "next_update (U r) = e"
    using same Nil.prems(1,5) by simp
  have "reduceLoop R reducer first (Some r) w s =
          Some (Inr \<lparr>newState = st', newBaseState = bst',
                newBaseQueueFirst = (if cl' = [] then None else Some n0),
                newBaseQueueLast = (if cl' = [] then None else Some (n0 + length cl' - 1))\<rparr>,
           s\<lparr>updates := U, nextAddr := n0 + length cl',
              fibers := (fibers s)(f := (fibers s f)\<lparr>fiber_lanes := X\<rparr>),
              skippedUpdateLanes := L\<rparr>)"
    apply (subst reduceLoop.simps)
    using Nil.prems(2) by (auto simp: red Let_def nx)
  then show ?case
    using ch same by blast
next
  case (Cons r' rs)
  obtain st1 bst1 cl1 where
    step: "rebaseStep R reducer (renderLanes s) (detach (updates s r))
                 (newState w, newBaseState w, cl) = Some (st1, bst1, cl1)"
    and rest: "rebase R reducer (renderLanes s) (contents (updates s) (r' # rs))
                 (st1, bst1, cl1) = Some (st', bst', cl')"
    using Cons.prems(7) by (auto simp: contents_def split: option.splits)
  obtain U1 X1 L1 where red: "reduceStep R reducer r w s =
          (Inr \<lparr>newState = st1, newBaseState = bst1,
                newBaseQueueFirst = (if cl1 = [] then None else Some n0),
                newBaseQueueLast = (if cl1 = [] then None else Some (n0 + length cl1 - 1))\<rparr>,
           s\<lparr>updates := U1, nextAddr := n0 + length cl1,
              fibers := (fibers s)(f := (fibers s f)\<lparr>fiber_lanes := X1\<rparr>),
              skippedUpdateLanes := L1\<rparr>)"
      and ch1: "cloneChain U1 n0 cl1" and same1: "\<forall>a<n0. U1 a = updates s a"
  proof -
    have "r < n0" using Cons.prems(5) by simp
    from reduceStep_refines[OF Cons.prems(4) this Cons.prems(6) step] that show ?thesis
      by blast
  qed
  define w1 where "w1 = \<lparr>newState = st1, newBaseState = bst1,
                newBaseQueueFirst = (if cl1 = [] then None else Some n0),
                newBaseQueueLast = (if cl1 = [] then None else Some (n0 + length cl1 - 1))\<rparr>"
  define s1 where "s1 = s\<lparr>updates := U1, nextAddr := n0 + length cl1,
              fibers := (fibers s)(f := (fibers s f)\<lparr>fiber_lanes := X1\<rparr>),
              skippedUpdateLanes := L1\<rparr>"
  have s1: "updates s1 = U1" "renderLanes s1 = renderLanes s"
    "currentlyRenderingFiber s1 = Some f" "nextAddr s1 = n0 + length cl1"
    by (simp_all add: s1_def Cons.prems(6))
  have agree: "\<forall>a\<in>set (r # r' # rs). U1 a = updates s a"
    using same1 Cons.prems(5) by simp
  have nx: "next_update (U1 r) = Some r'"
    using agree Cons.prems(1) by simp
  have go: "Some r' \<noteq> first"
    using Cons.prems(3) by simp
  have loop1: "reduceLoop R reducer first (Some r) w s = reduceLoop R reducer first (Some r') w1 s1"
    apply (subst reduceLoop.simps)
    using go by (simp add: red Let_def nx w1_def[symmetric] s1_def[symmetric] s1)
  have "updatePath U1 (Some r') (r' # rs) e = updatePath (updates s) (Some r') (r' # rs) e"
    by (rule updatePath_cong) (use agree in simp)
  moreover have "updatePath (updates s) (Some r') (r' # rs) e"
    using Cons.prems(1) by simp
  ultimately have path1: "updatePath (updates s1) (Some r') (r' # rs) e"
    by (simp only: s1)
  have inv1: "walkInv n0 cl1 w1 s1"
    by (simp add: walkInv_def s1 w1_def ch1)
  have "contents U1 (r' # rs) = contents (updates s) (r' # rs)"
    by (rule contents_cong) (use agree in simp)
  then have pure1: "rebase R reducer (renderLanes s1) (contents (updates s1) (r' # rs))
                 (newState w1, newBaseState w1, cl1) = Some (st', bst', cl')"
    using rest by (simp add: s1 w1_def)
  obtain U X L where fin: "reduceLoop R reducer first (Some r') w1 s1 =
          Some (Inr \<lparr>newState = st', newBaseState = bst',
                newBaseQueueFirst = (if cl' = [] then None else Some n0),
                newBaseQueueLast = (if cl' = [] then None else Some (n0 + length cl' - 1))\<rparr>,
           s1\<lparr>updates := U, nextAddr := n0 + length cl',
              fibers := (fibers s1)(f := (fibers s1 f)\<lparr>fiber_lanes := X\<rparr>),
              skippedUpdateLanes := L\<rparr>)"
      and ch: "cloneChain U n0 cl'" and same: "\<forall>a<n0. U a = updates s1 a"
  proof -
    have a: "\<forall>a\<in>set rs. Some a \<noteq> first" and b: "\<forall>a\<in>set (r' # rs). a < n0"
      using Cons.prems(3,5) by simp_all
    from Cons.IH[OF path1 Cons.prems(2) a inv1 b s1(3) pure1] that show ?thesis
      by blast
  qed
  have st: "s1\<lparr>updates := U, nextAddr := n0 + length cl',
              fibers := (fibers s1)(f := (fibers s1 f)\<lparr>fiber_lanes := X\<rparr>),
              skippedUpdateLanes := L\<rparr>
      = s\<lparr>updates := U, nextAddr := n0 + length cl',
              fibers := (fibers s)(f := (fibers s f)\<lparr>fiber_lanes := X\<rparr>),
              skippedUpdateLanes := L\<rparr>"
    by (simp add: s1_def)
  have same': "\<forall>a<n0. U a = updates s a"
    using same same1 by (simp add: s1)
  have "reduceLoop R reducer first (Some r) w s =
          Some (Inr \<lparr>newState = st', newBaseState = bst',
                newBaseQueueFirst = (if cl' = [] then None else Some n0),
                newBaseQueueLast = (if cl' = [] then None else Some (n0 + length cl' - 1))\<rparr>,
           s\<lparr>updates := U, nextAddr := n0 + length cl',
              fibers := (fibers s)(f := (fibers s f)\<lparr>fiber_lanes := X\<rparr>),
              skippedUpdateLanes := L\<rparr>)"
    using loop1 fin unfolding st by (rule trans)
  then show ?case
    using ch same' by (intro exI conjI)
qed

lemma updatePath_append:
  "updatePath U x (as @ bs) z \<longleftrightarrow> (\<exists>y. updatePath U x as y \<and> updatePath U y bs z)"
  by (induction as arbitrary: x) auto

lemma updatePath_last:
  assumes "updatePath U x as y" and "as \<noteq> []"
  shows "y = next_update (U (last as))"
  using assms by (induction as arbitrary: x) (auto split: if_splits)

lemma updatePath_hd:
  assumes "updatePath U x as y" and "as \<noteq> []"
  shows "x = Some (hd as)"
  using assms by (cases as) auto

lemma updatePath_upd_last:
  assumes "updatePath U x as y" and "distinct as" and "as \<noteq> []"
  shows "updatePath (U(last as := (U (last as))\<lparr>next_update := z\<rparr>)) x as z"
  using assms
proof (induction as arbitrary: x)
  case Nil
  then show ?case by simp
next
  case (Cons a as)
  show ?case
  proof (cases "as = []")
    case True
    with Cons.prems show ?thesis by simp
  next
    case False
    define U' where "U' = U(last as := (U (last as))\<lparr>next_update := z\<rparr>)"
    have "a \<noteq> last as" using Cons.prems(2) False by auto
    then have a: "U' a = U a" by (simp add: U'_def)
    have "updatePath U (next_update (U a)) as y" and "distinct as"
      using Cons.prems by simp_all
    then have "updatePath U' (next_update (U a)) as z"
      unfolding U'_def using False by (rule Cons.IH)
    then have "updatePath U' x (a # as) z"
      using Cons.prems(1) a by simp
    moreover have "last (a # as) = last as"
      using False by simp
    ultimately show ?thesis
      unfolding U'_def by (simp only:)
  qed
qed

lemma circularQueue_first:
  assumes "circularQueue U l xs"
  shows "next_update (U l) = Some (hd xs)" and "xs \<noteq> []" and "last xs = l" and "distinct xs"
    and "updatePath U (Some (hd xs)) xs (Some (hd xs))"
proof -
  show ne: "xs \<noteq> []" and "last xs = l" and "distinct xs"
    using assms by (simp_all add: circularQueue_def)
  have p: "updatePath U (next_update (U l)) xs (next_update (U l))"
    using assms by (simp add: circularQueue_def)
  show h: "next_update (U l) = Some (hd xs)"
    using updatePath_hd[OF p ne] .
  show "updatePath U (Some (hd xs)) xs (Some (hd xs))"
    using p unfolding h .
qed

lemma circularQueueI:
  assumes "xs \<noteq> []" and "distinct xs" and "updatePath U (Some (hd xs)) xs (Some (hd xs))"
  shows "circularQueue U (last xs) xs"
proof -
  have "Some (hd xs) = next_update (U (last xs))"
    using updatePath_last[OF assms(3,1)] .
  then show ?thesis
    using assms by (simp add: circularQueue_def)
qed

text \<open>Splicing the pending queue onto the base queue, as the two assignments do.\<close>

lemma circularQueue_merge:
  assumes b: "circularQueue U b bs" and p: "circularQueue U p ps" and d: "distinct (bs @ ps)"
  defines "U1 \<equiv> U(b := (U b)\<lparr>next_update := next_update (U p)\<rparr>)"
  defines "U2 \<equiv> U1(p := (U1 p)\<lparr>next_update := next_update (U b)\<rparr>)"
  shows "circularQueue U2 p (bs @ ps)" and "contents U2 (bs @ ps) = contents U (bs @ ps)"
    and "\<forall>a. a \<noteq> b \<and> a \<noteq> p \<longrightarrow> U2 a = U a"
proof -
  note B = circularQueue_first[OF b] and P = circularQueue_first[OF p]
  have bp: "b \<noteq> p" "b \<notin> set ps" "p \<notin> set bs"
    using d B(2,3) P(2,3) by (auto simp: last_in_set dest: last_in_set)
  have pb: "updatePath (U(b := (U b)\<lparr>next_update := Some (hd ps)\<rparr>)) (Some (hd bs)) bs (Some (hd ps))"
    using updatePath_upd_last[OF B(5) B(4) B(2), of "Some (hd ps)"] B(3) by simp
  have U1: "U1 = U(b := (U b)\<lparr>next_update := Some (hd ps)\<rparr>)"
    by (simp add: U1_def P(1))
  have U2: "U2 = U1(p := (U1 p)\<lparr>next_update := Some (hd bs)\<rparr>)"
    by (simp add: U2_def B(1))
  have "updatePath U1 (Some (hd ps)) ps (Some (hd ps))
        = updatePath U (Some (hd ps)) ps (Some (hd ps))"
    by (rule updatePath_cong) (use bp U1 in auto)
  then have pp1: "updatePath U1 (Some (hd ps)) ps (Some (hd ps))"
    using P(5) by simp
  have pp2: "updatePath U2 (Some (hd ps)) ps (Some (hd bs))"
    using updatePath_upd_last[OF pp1 P(4) P(2), of "Some (hd bs)"] P(3) U2 by simp
  have "updatePath U2 (Some (hd bs)) bs (Some (hd ps)) = updatePath U1 (Some (hd bs)) bs (Some (hd ps))"
    by (rule updatePath_cong) (use bp U2 in auto)
  then have pb2: "updatePath U2 (Some (hd bs)) bs (Some (hd ps))"
    using pb U1 by simp
  have "updatePath U2 (Some (hd (bs @ ps))) (bs @ ps) (Some (hd (bs @ ps)))"
    using pb2 pp2 B(2) by (auto simp: updatePath_append)
  then have "circularQueue U2 (last (bs @ ps)) (bs @ ps)"
    using B(2) d by (intro circularQueueI) simp_all
  then show "circularQueue U2 p (bs @ ps)"
    using P(2,3) by simp
  show "contents U2 (bs @ ps) = contents U (bs @ ps)"
    by (simp add: contents_def U2_def U1_def)
  show "\<forall>a. a \<noteq> b \<and> a \<noteq> p \<longrightarrow> U2 a = U a"
    by (simp add: U2_def U1_def)
qed

text \<open>Closing the new base queue: the last clone is linked back to the first.\<close>

lemma updatePath_chain:
  assumes "cloneChain U n0 cl" and "i < length cl"
  shows "updatePath U (Some (n0 + i)) [n0 + i..<n0 + length cl] None"
  using assms
proof (induction "length cl - i" arbitrary: i)
  case 0
  then show ?case by simp
next
  case (Suc k)
  have i: "i < length cl" using Suc.prems by simp
  have nx: "next_update (U (n0 + i)) = (if Suc i < length cl then Some (n0 + Suc i) else None)"
    using Suc.prems i by (simp add: cloneChain_def)
  have upt: "[n0 + i..<n0 + length cl] = (n0 + i) # [n0 + Suc i..<n0 + length cl]"
    using i by (simp add: upt_rec)
  show ?case
  proof (cases "Suc i < length cl")
    case True
    have "updatePath U (Some (n0 + Suc i)) [n0 + Suc i..<n0 + length cl] None"
      using Suc.hyps(1)[of "Suc i"] Suc.hyps(2) Suc.prems(1) True by simp
    then show ?thesis
      unfolding upt using nx True by simp
  next
    case False
    then have "[n0 + Suc i..<n0 + length cl] = []" using i by simp
    then show ?thesis
      unfolding upt using nx False by simp
  qed
qed

lemma cloneChain_close:
  assumes ch: "cloneChain U n0 cl" and ne: "cl \<noteq> []" and det: "\<forall>c\<in>set cl. detach c = c"
  defines "l \<equiv> n0 + length cl - 1"
  defines "U' \<equiv> U(l := (U l)\<lparr>next_update := Some n0\<rparr>)"
  shows "circularQueue U' l [n0..<n0 + length cl]"
    and "contents U' [n0..<n0 + length cl] = cl"
proof -
  have p: "updatePath U (Some (hd [n0..<n0 + length cl])) [n0..<n0 + length cl] None"
    using updatePath_chain[OF ch, of 0] ne by (simp add: upt_rec)
  have lst: "last [n0..<n0 + length cl] = l"
    using ne by (cases cl) (simp_all add: l_def)
  have nn: "[n0..<n0 + length cl] \<noteq> []" and hd: "hd [n0..<n0 + length cl] = n0"
    using ne by (simp_all add: upt_rec)
  have "updatePath U' (Some n0) [n0..<n0 + length cl] (Some n0)"
    using updatePath_upd_last[OF p _ nn, of "Some n0"] lst hd by (simp add: U'_def)
  then have "circularQueue U' (last [n0..<n0 + length cl]) [n0..<n0 + length cl]"
    using nn hd by (intro circularQueueI) simp_all
  then show "circularQueue U' l [n0..<n0 + length cl]"
    using lst by simp
  have "detach (U' (n0 + i)) = cl ! i" if "i < length cl" for i
  proof -
    have "U (n0 + i) = (cl ! i)\<lparr>next_update := (if Suc i < length cl then Some (n0 + Suc i) else None)\<rparr>"
      using ch that by (simp add: cloneChain_def)
    then have "detach (U' (n0 + i)) = detach (cl ! i)"
      by (cases "n0 + i = l") (simp_all add: U'_def)
    then show ?thesis using det that by simp
  qed
  then show "contents U' [n0..<n0 + length cl] = cl"
    unfolding contents_def by (intro nth_equalityI) simp_all
qed

section \<open>updateReducer on a well-formed queue\<close>

lemma queueList_Nil:
  "queueList U p [] \<longleftrightarrow> p = None"
  by (cases p) (simp_all add: queueList_def circularQueue_def)

lemma queueList_nonempty:
  assumes "queueList U p xs" and "xs \<noteq> []"
  shows "p = Some (last xs)" and "circularQueue U (last xs) xs"
  using assms by (cases p; simp add: queueList_def circularQueue_def)+

lemma updateWorkInProgressHook_clone:
  assumes f: "currentlyRenderingFiber s = Some f"
    and nw: "nextWorkInProgressHook s = Inr None"
    and nc: "nextCurrentHook s = Inr (Some c)"
    and c: "c < nextAddr s"
    and wc: "workInProgressHook s \<noteq> Some c"
    and w: "\<forall>w. workInProgressHook s = Some w \<longrightarrow> w < nextAddr s"
  shows "\<exists>H1 F1. updateWorkInProgressHook s =
           (Inr (nextAddr s),
            s\<lparr>currentHook := Some c, hooks := H1, nextAddr := Suc (nextAddr s),
               fibers := F1, workInProgressHook := Some (nextAddr s)\<rparr>)
         \<and> H1 (nextAddr s) = (hooks s c)\<lparr>next_hook := None\<rparr>
         \<and> H1 c = hooks s c
         \<and> (\<forall>x. x \<noteq> nextAddr s \<and> Some x \<noteq> workInProgressHook s \<longrightarrow> H1 x = hooks s x)
         \<and> (\<forall>g. fiber_alternate (F1 g) = fiber_alternate (fibers s g)
                \<and> fiber_lanes (F1 g) = fiber_lanes (fibers s g)
                \<and> (g \<noteq> f \<longrightarrow> F1 g = fibers s g))
         \<and> (\<forall>x. workInProgressHook s = Some x
                \<longrightarrow> H1 x = (hooks s x)\<lparr>next_hook := Some (nextAddr s)\<rparr>)
         \<and> fiber_memoizedState (F1 f)
              = (if workInProgressHook s = None then Some (nextAddr s)
                 else fiber_memoizedState (fibers s f))"
proof (cases "workInProgressHook s")
  case None
  define H1 where "H1 = (hooks s)(nextAddr s := \<lparr>memoizedState = memoizedState (hooks s c),
                                 baseState = baseState (hooks s c),
                                 baseQueue = baseQueue (hooks s c),
                                 queue = queue (hooks s c),
                                 next_hook = None\<rparr>)"
  define F1 where "F1 = (fibers s)(f := (fibers s f)\<lparr>fiber_memoizedState := Some (nextAddr s)\<rparr>)"
  have "updateWorkInProgressHook s =
           (Inr (nextAddr s),
            s\<lparr>currentHook := Some c, hooks := H1, nextAddr := Suc (nextAddr s),
               fibers := F1, workInProgressHook := Some (nextAddr s)\<rparr>)"
    by (simp add: updateWorkInProgressHook_def nw nc Let_def None f H1_def F1_def)
  moreover have "H1 (nextAddr s) = (hooks s c)\<lparr>next_hook := None\<rparr>"
    by (simp add: H1_def)
  moreover have "H1 c = hooks s c"
    using c by (simp add: H1_def)
  moreover have "\<forall>x. x \<noteq> nextAddr s \<and> Some x \<noteq> workInProgressHook s \<longrightarrow> H1 x = hooks s x"
    by (simp add: H1_def)
  moreover have "\<forall>g. fiber_alternate (F1 g) = fiber_alternate (fibers s g)
                \<and> fiber_lanes (F1 g) = fiber_lanes (fibers s g)
                \<and> (g \<noteq> f \<longrightarrow> F1 g = fibers s g)"
    by (simp add: F1_def)
  moreover have "\<forall>x. workInProgressHook s = Some x
                \<longrightarrow> H1 x = (hooks s x)\<lparr>next_hook := Some (nextAddr s)\<rparr>"
    using None by simp
  moreover have "fiber_memoizedState (F1 f)
              = (if workInProgressHook s = None then Some (nextAddr s)
                 else fiber_memoizedState (fibers s f))"
    using None by (simp add: F1_def)
  ultimately show ?thesis by blast
next
  case (Some w0)
  have w0: "w0 < nextAddr s" "w0 \<noteq> c"
    using w wc Some by auto
  define H0 where "H0 = (hooks s)(nextAddr s := \<lparr>memoizedState = memoizedState (hooks s c),
                                 baseState = baseState (hooks s c),
                                 baseQueue = baseQueue (hooks s c),
                                 queue = queue (hooks s c),
                                 next_hook = None\<rparr>)"
  define H1 where "H1 = H0(w0 := (H0 w0)\<lparr>next_hook := Some (nextAddr s)\<rparr>)"
  have idem: "s\<lparr>currentHook := Some c, hooks := H1, nextAddr := Suc (nextAddr s),
               workInProgressHook := Some (nextAddr s)\<rparr>
      = s\<lparr>currentHook := Some c, hooks := H1, nextAddr := Suc (nextAddr s),
               fibers := fibers s, workInProgressHook := Some (nextAddr s)\<rparr>"
    by simp
  have "updateWorkInProgressHook s =
           (Inr (nextAddr s),
            s\<lparr>currentHook := Some c, hooks := H1, nextAddr := Suc (nextAddr s),
               workInProgressHook := Some (nextAddr s)\<rparr>)"
    by (simp add: updateWorkInProgressHook_def nw nc Let_def Some f H1_def H0_def)
  then have "updateWorkInProgressHook s =
           (Inr (nextAddr s),
            s\<lparr>currentHook := Some c, hooks := H1, nextAddr := Suc (nextAddr s),
               fibers := fibers s, workInProgressHook := Some (nextAddr s)\<rparr>)"
    unfolding idem .
  moreover have "H1 (nextAddr s) = (hooks s c)\<lparr>next_hook := None\<rparr>"
    using w0 by (simp add: H1_def H0_def)
  moreover have "H1 c = hooks s c"
    using c w0 by (simp add: H1_def H0_def)
  moreover have "\<forall>x. x \<noteq> nextAddr s \<and> Some x \<noteq> workInProgressHook s \<longrightarrow> H1 x = hooks s x"
    using Some by (auto simp: H1_def H0_def)
  moreover have "\<forall>x. workInProgressHook s = Some x
                \<longrightarrow> H1 x = (hooks s x)\<lparr>next_hook := Some (nextAddr s)\<rparr>"
    using Some w0 by (simp add: H1_def H0_def)
  moreover have "fiber_memoizedState (fibers s f)
              = (if workInProgressHook s = None then Some (nextAddr s)
                 else fiber_memoizedState (fibers s f))"
    using Some by simp
  ultimately show ?thesis by blast
qed


lemma mergePendingQueue_refines:
  assumes b: "queueList (updates s) (baseQueue (hooks s c)) bs"
    and p: "queueList (updates s) (pending (queues s q)) ps"
    and d: "distinct (bs @ ps)" and ne: "bs @ ps \<noteq> []"
  shows "\<exists>U3. mergePendingQueue c q s =
           (Some (last (bs @ ps)),
            s\<lparr>updates := U3,
               hooks := (hooks s)(c := (hooks s c)\<lparr>baseQueue := Some (last (bs @ ps))\<rparr>),
               queues := (queues s)(q := (queues s q)\<lparr>pending := None\<rparr>)\<rparr>)
         \<and> circularQueue U3 (last (bs @ ps)) (bs @ ps)
         \<and> contents U3 (bs @ ps) = contents (updates s) (bs @ ps)
         \<and> (\<forall>a. a \<notin> set (bs @ ps) \<longrightarrow> U3 a = updates s a)"
proof (cases "ps = []")
  case True
  then have bs: "bs \<noteq> []" using ne by simp
  have pn: "pending (queues s q) = None"
    using p True by (simp add: queueList_Nil)
  note B = queueList_nonempty[OF b bs]
  have h: "(hooks s)(c := (hooks s c)\<lparr>baseQueue := Some (last bs)\<rparr>) = hooks s"
    using B(1) by (metis fun_upd_triv hook.surjective hook.update_convs(3) hook.select_convs(3))
  have qq: "(queues s)(q := (queues s q)\<lparr>pending := None\<rparr>) = queues s"
    using pn by (metis fun_upd_triv updateQueue.surjective updateQueue.update_convs(1)
        updateQueue.select_convs(1))
  have "mergePendingQueue c q s = (Some (last bs), s)"
    by (simp add: mergePendingQueue_def pn B(1))
  then have "mergePendingQueue c q s =
           (Some (last (bs @ ps)),
            s\<lparr>updates := updates s,
               hooks := (hooks s)(c := (hooks s c)\<lparr>baseQueue := Some (last (bs @ ps))\<rparr>),
               queues := (queues s)(q := (queues s q)\<lparr>pending := None\<rparr>)\<rparr>)"
    using True by (simp add: h qq)
  moreover have "circularQueue (updates s) (last (bs @ ps)) (bs @ ps)"
    using B(2) True by simp
  ultimately show ?thesis by blast
next
  case False
  note P = queueList_nonempty[OF p False]
  have lp: "last (bs @ ps) = last ps" using False by simp
  show ?thesis
  proof (cases "bs = []")
    case True
    have bn: "baseQueue (hooks s c) = None"
      using b True by (simp add: queueList_Nil)
    have "mergePendingQueue c q s =
           (Some (last (bs @ ps)),
            s\<lparr>updates := updates s,
               hooks := (hooks s)(c := (hooks s c)\<lparr>baseQueue := Some (last (bs @ ps))\<rparr>),
               queues := (queues s)(q := (queues s q)\<lparr>pending := None\<rparr>)\<rparr>)"
      by (simp add: mergePendingQueue_def P(1) bn lp)
    moreover have "circularQueue (updates s) (last (bs @ ps)) (bs @ ps)"
      using P(2) True by simp
    ultimately show ?thesis by blast
  next
    case bs: False
    note B = queueList_nonempty[OF b bs]
    define U1 where "U1 = (updates s)(last bs := (updates s (last bs))
        \<lparr>next_update := next_update (updates s (last ps))\<rparr>)"
    define U2 where "U2 = U1(last ps := (U1 (last ps))
        \<lparr>next_update := next_update (updates s (last bs))\<rparr>)"
    note M = circularQueue_merge[OF B(2) P(2) d, folded U1_def, folded U2_def]
    have "mergePendingQueue c q s =
           (Some (last (bs @ ps)),
            s\<lparr>updates := U2,
               hooks := (hooks s)(c := (hooks s c)\<lparr>baseQueue := Some (last (bs @ ps))\<rparr>),
               queues := (queues s)(q := (queues s q)\<lparr>pending := None\<rparr>)\<rparr>)"
      by (simp add: mergePendingQueue_def P(1) B(1) lp Let_def U1_def U2_def)
    moreover have "circularQueue U2 (last (bs @ ps)) (bs @ ps)"
      using M(1) lp by simp
    moreover have "\<forall>a. a \<notin> set (bs @ ps) \<longrightarrow> U2 a = updates s a"
    proof (intro allI impI)
      fix a assume "a \<notin> set (bs @ ps)"
      then have "a \<noteq> last bs \<and> a \<noteq> last ps"
        using last_in_set[OF bs] last_in_set[OF False] by auto
      then show "U2 a = updates s a"
        using M(3) by blast
    qed
    ultimately show ?thesis
      using M(2) by blast
  qed
qed

lemma circularQueue_cong:
  assumes "\<forall>a\<in>set xs. U' a = U a"
  shows "circularQueue U' l xs = circularQueue U l xs"
proof (cases "xs \<noteq> [] \<and> last xs = l")
  case True
  then have "l \<in> set xs" by auto
  then have l: "U' l = U l" using assms by simp
  have "updatePath U' (next_update (U l)) xs (next_update (U l))
      = updatePath U (next_update (U l)) xs (next_update (U l))"
    by (rule updatePath_cong) (use assms in simp)
  then show ?thesis
    by (simp add: circularQueue_def l)
next
  case False
  then show ?thesis by (auto simp: circularQueue_def)
qed

lemma rebaseStep_detached:
  assumes "rebaseStep R reducer rl u (st, bst, cl) = Some (st', bst', cl')"
    and "\<forall>c\<in>set cl. detach c = c"
  shows "\<forall>c\<in>set cl'. detach c = c"
  using assms by (auto simp: rebaseStep_def Let_def split: if_splits option.splits)

lemma rebase_detached:
  assumes "rebase R reducer rl us (st, bst, cl) = Some (st', bst', cl')"
    and "\<forall>c\<in>set cl. detach c = c"
  shows "\<forall>c\<in>set cl'. detach c = c"
  using assms
proof (induction us arbitrary: st bst cl)
  case Nil
  then show ?case by simp
next
  case (Cons u us)
  obtain st1 bst1 cl1 where 1: "rebaseStep R reducer rl u (st, bst, cl) = Some (st1, bst1, cl1)"
    and 2: "rebase R reducer rl us (st1, bst1, cl1) = Some (st', bst', cl')"
    using Cons.prems(1) by (auto split: option.splits)
  show ?case
    using Cons.IH[OF 2 rebaseStep_detached[OF 1 Cons.prems(2)]] .
qed

lemma updateReducer_refines:
  assumes ready: "reducerHookReady s f c q bs ps" and ne: "bs @ ps \<noteq> []"
    and pure: "rebase R reducer (renderLanes s) (contents (updates s) (bs @ ps))
                 (baseState (hooks s c), VNull, []) = Some (st', bst', cl')"
  shows "\<exists>s'. updateReducer R reducer s = Some (Inr (st', dispatch (queues s q)), s')
     \<and> workInProgressHook s' = Some (nextAddr s) \<and> currentHook s' = Some c
     \<and> currentlyRenderingFiber s' = Some f \<and> renderLanes s' = renderLanes s
     \<and> nextAddr s' = Suc (nextAddr s) + length cl'
     \<and> hooks s' (nextAddr s) =
          \<lparr>memoizedState = st', baseState = (if cl' = [] then st' else bst'),
           baseQueue = (if cl' = [] then None else Some (nextAddr s + length cl')),
           queue = Some q, next_hook = None\<rparr>
     \<and> hooks s' c = (hooks s c)\<lparr>baseQueue := Some (last (bs @ ps))\<rparr>
     \<and> (\<forall>x. x \<noteq> nextAddr s \<and> x \<noteq> c \<and> Some x \<noteq> workInProgressHook s \<longrightarrow> hooks s' x = hooks s x)
     \<and> queues s' = (queues s)(q := (queues s q)
          \<lparr>pending := None, lastRenderedReducer := Some reducer, lastRenderedState := st'\<rparr>)
     \<and> circularQueue (updates s') (last (bs @ ps)) (bs @ ps)
     \<and> contents (updates s') (bs @ ps) = contents (updates s) (bs @ ps)
     \<and> queueList (updates s') (baseQueue (hooks s' (nextAddr s)))
          [Suc (nextAddr s)..<Suc (nextAddr s) + length cl']
     \<and> contents (updates s') [Suc (nextAddr s)..<Suc (nextAddr s) + length cl'] = cl'
     \<and> (\<forall>a<nextAddr s. a \<notin> set (bs @ ps) \<longrightarrow> updates s' a = updates s a)
     \<and> (\<forall>g. fiber_alternate (fibers s' g) = fiber_alternate (fibers s g)
            \<and> (g \<noteq> f \<longrightarrow> fibers s' g = fibers s g))
     \<and> (\<forall>x. workInProgressHook s = Some x
            \<longrightarrow> hooks s' x = (hooks s x)\<lparr>next_hook := Some (nextAddr s)\<rparr>)
     \<and> fiber_memoizedState (fibers s' f)
          = (if workInProgressHook s = None then Some (nextAddr s)
             else fiber_memoizedState (fibers s f))"
proof -
  define h where "h = nextAddr s"
  define us where "us = bs @ ps"
  have f: "currentlyRenderingFiber s = Some f"
    and nw: "nextWorkInProgressHook s = Inr None"
    and nc: "nextCurrentHook s = Inr (Some c)"
    and c: "c < h"
    and wc: "workInProgressHook s \<noteq> Some c"
    and w: "\<forall>w. workInProgressHook s = Some w \<longrightarrow> w < nextAddr s"
    and q: "queue (hooks s c) = Some q"
    and b: "queueList (updates s) (baseQueue (hooks s c)) bs"
    and p: "queueList (updates s) (pending (queues s q)) ps"
    and d: "distinct (bs @ ps)"
    and old: "\<forall>a\<in>set us. a < h"
    using ready by (simp_all add: reducerHookReady_def h_def us_def)
  \<comment> \<open>the work-in-progress hook\<close>
  obtain H1 F1 where wip: "updateWorkInProgressHook s =
           (Inr h, s\<lparr>currentHook := Some c, hooks := H1, nextAddr := Suc h,
               fibers := F1, workInProgressHook := Some h\<rparr>)"
    and H1h: "H1 h = (hooks s c)\<lparr>next_hook := None\<rparr>"
    and H1c: "H1 c = hooks s c"
    and H1x: "\<forall>x. x \<noteq> h \<and> Some x \<noteq> workInProgressHook s \<longrightarrow> H1 x = hooks s x"
    and F1g: "\<forall>g. fiber_alternate (F1 g) = fiber_alternate (fibers s g)
                \<and> fiber_lanes (F1 g) = fiber_lanes (fibers s g)
                \<and> (g \<noteq> f \<longrightarrow> F1 g = fibers s g)"
    and H1w: "\<forall>x. workInProgressHook s = Some x \<longrightarrow> H1 x = (hooks s x)\<lparr>next_hook := Some h\<rparr>"
    and F1f: "fiber_memoizedState (F1 f)
              = (if workInProgressHook s = None then Some h else fiber_memoizedState (fibers s f))"
    using updateWorkInProgressHook_clone[OF f nw nc c[unfolded h_def] wc w]
    unfolding h_def by blast
  define Q2 where "Q2 = (queues s)(q := (queues s q)\<lparr>lastRenderedReducer := Some reducer\<rparr>)"
  define s2 where "s2 = s\<lparr>currentHook := Some c, hooks := H1, nextAddr := Suc h,
               fibers := F1, workInProgressHook := Some h, queues := Q2\<rparr>"
  have s2: "updates s2 = updates s" "hooks s2 = H1" "queues s2 = Q2" "nextAddr s2 = Suc h"
    "currentlyRenderingFiber s2 = Some f" "renderLanes s2 = renderLanes s" "fibers s2 = F1"
    by (simp_all add: s2_def f)
  \<comment> \<open>the merge\<close>
  have b2: "queueList (updates s2) (baseQueue (hooks s2 c)) bs"
    and p2: "queueList (updates s2) (pending (queues s2 q)) ps"
    using b p by (simp_all add: s2 H1c Q2_def)
  obtain U3 where mrg: "mergePendingQueue c q s2 =
           (Some (last us),
            s2\<lparr>updates := U3,
               hooks := (hooks s2)(c := (hooks s2 c)\<lparr>baseQueue := Some (last us)\<rparr>),
               queues := (queues s2)(q := (queues s2 q)\<lparr>pending := None\<rparr>)\<rparr>)"
    and circ3: "circularQueue U3 (last us) us"
    and cont3: "contents U3 us = contents (updates s) us"
    and U3x: "\<forall>a. a \<notin> set us \<longrightarrow> U3 a = updates s a"
    using mergePendingQueue_refines[OF b2 p2 d ne] unfolding us_def s2(1) by blast
  define H3 where "H3 = H1(c := (hooks s c)\<lparr>baseQueue := Some (last us)\<rparr>)"
  define Q3 where "Q3 = (queues s)(q := (queues s q)
      \<lparr>lastRenderedReducer := Some reducer, pending := None\<rparr>)"
  define s3 where "s3 = s\<lparr>currentHook := Some c, hooks := H3, nextAddr := Suc h,
               fibers := F1, workInProgressHook := Some h, queues := Q3, updates := U3\<rparr>"
  have s3eq: "s2\<lparr>updates := U3,
               hooks := (hooks s2)(c := (hooks s2 c)\<lparr>baseQueue := Some (last us)\<rparr>),
               queues := (queues s2)(q := (queues s2 q)\<lparr>pending := None\<rparr>)\<rparr> = s3"
    by (simp add: s2_def s3_def H3_def Q3_def Q2_def H1c)
  have s3: "updates s3 = U3" "hooks s3 = H3" "queues s3 = Q3" "nextAddr s3 = Suc h"
    "currentlyRenderingFiber s3 = Some f" "renderLanes s3 = renderLanes s" "fibers s3 = F1"
    by (simp_all add: s3_def f)
  have ch: "c \<noteq> h" using c by simp
  \<comment> \<open>the walk\<close>
  note C3 = circularQueue_first[OF circ3]
  define w0 where "w0 = \<lparr>newState = baseState (hooks s c), newBaseState = VNull,
      newBaseQueueFirst = None, newBaseQueueLast = None\<rparr>"
  have usne: "us \<noteq> []" using ne by (simp add: us_def)
  have uscons: "us = hd us # tl us" using usne by simp
  have path: "updatePath (updates s3) (Some (hd us)) (hd us # tl us) (Some (hd us))"
    using C3(5) uscons by (simp add: s3)
  have nostop: "\<forall>a\<in>set (tl us). Some a \<noteq> Some (hd us)"
    using C3(4) uscons by (metis distinct.simps(2) option.inject)
  have inv: "walkInv (Suc h) [] w0 s3"
    by (simp add: walkInv_def s3 w0_def)
  have old3: "\<forall>a\<in>set (hd us # tl us). a < Suc h"
    using old uscons by (metis less_Suc_eq)
  have pure3: "rebase R reducer (renderLanes s3) (contents (updates s3) (hd us # tl us))
      (newState w0, newBaseState w0, []) = Some (st', bst', cl')"
    using pure uscons by (simp add: s3 cont3 w0_def us_def[symmetric])
  define w' where "w' = \<lparr>newState = st', newBaseState = bst',
                newBaseQueueFirst = (if cl' = [] then None else Some (Suc h)),
                newBaseQueueLast = (if cl' = [] then None else Some (Suc h + length cl' - 1))\<rparr>"
  obtain U4 X L where loop: "reduceLoop R reducer (Some (hd us)) (Some (hd us)) w0 s3 =
          Some (Inr w',
           s3\<lparr>updates := U4, nextAddr := Suc h + length cl',
              fibers := (fibers s3)(f := (fibers s3 f)\<lparr>fiber_lanes := X\<rparr>),
              skippedUpdateLanes := L\<rparr>)"
    and chain: "cloneChain U4 (Suc h) cl'" and U4x: "\<forall>a<Suc h. U4 a = updates s3 a"
  proof -
    have stop: "Some (hd us) = None \<or> Some (hd us) = Some (hd us)" by simp
    from reduceLoop_refines[OF path stop nostop inv old3 s3(5) pure3] that show ?thesis
      unfolding w'_def by blast
  qed
  define F4 where "F4 = F1(f := (F1 f)\<lparr>fiber_lanes := X\<rparr>)"
  define s4 where "s4 = s\<lparr>currentHook := Some c, hooks := H3, nextAddr := Suc h + length cl',
               fibers := F4, workInProgressHook := Some h, queues := Q3, updates := U4,
               skippedUpdateLanes := L\<rparr>"
  have s4eq: "s3\<lparr>updates := U4, nextAddr := Suc h + length cl',
              fibers := (fibers s3)(f := (fibers s3 f)\<lparr>fiber_lanes := X\<rparr>),
              skippedUpdateLanes := L\<rparr> = s4"
    by (simp add: s3_def s4_def F4_def)
  \<comment> \<open>storing the result\<close>
  define U5 where "U5 = (if cl' = [] then U4
      else U4(Suc h + length cl' - 1 := (U4 (Suc h + length cl' - 1))\<lparr>next_update := Some (Suc h)\<rparr>))"
  define D where "D = (if \<not> objectIs st' (memoizedState (hooks s c)) then True else didReceiveUpdate s)"
  define H7 where "H7 = H3(h := \<lparr>memoizedState = st', baseState = (if cl' = [] then st' else bst'),
           baseQueue = (if cl' = [] then None else Some (h + length cl')),
           queue = Some q, next_hook = None\<rparr>)"
  define Q7 where "Q7 = (queues s)(q := (queues s q)
          \<lparr>pending := None, lastRenderedReducer := Some reducer, lastRenderedState := st'\<rparr>)"
  define s7 where "s7 = s\<lparr>currentHook := Some c, hooks := H7, nextAddr := Suc h + length cl',
               fibers := F4, workInProgressHook := Some h, queues := Q7, updates := U5,
               skippedUpdateLanes := L, didReceiveUpdate := D\<rparr>"
  have H3h: "H3 h = (hooks s c)\<lparr>next_hook := None\<rparr>"
    using ch by (simp add: H3_def H1h)
  have hk: "(hooks s c)\<lparr>next_hook := None, memoizedState := st', baseState := x, baseQueue := y\<rparr>
      = \<lparr>memoizedState = st', baseState = x, baseQueue = y, queue = Some q, next_hook = None\<rparr>"
    for x y
    by (rule hook.equality) (simp_all add: q)
  have qk: "(queues s q)\<lparr>lastRenderedReducer := Some reducer, pending := None,
                  lastRenderedState := st'\<rparr>
      = (queues s q)\<lparr>pending := None, lastRenderedReducer := Some reducer,
                  lastRenderedState := st'\<rparr>"
    by (rule updateQueue.equality) simp_all
  have l: "Suc (h + length cl') - Suc 0 = h + length cl'" by simp
  have store: "storeReducedState h q w' s4 = s7"
    by (rule hstate.equality)
       (simp_all add: storeReducedState_def w'_def s4_def s7_def Let_def
            markWorkInProgressReceivedUpdate_def H3h U5_def D_def H7_def Q7_def Q3_def l hk qk)
  have s7: "updates s7 = U5" "hooks s7 = H7" "queues s7 = Q7"
    "nextAddr s7 = Suc h + length cl'" "currentlyRenderingFiber s7 = Some f"
    "renderLanes s7 = renderLanes s" "fibers s7 = F4" "workInProgressHook s7 = Some h"
    "currentHook s7 = Some c"
    by (simp_all add: s7_def f)
  have q1: "queue (H1 h) = Some q"
    by (simp add: H1h q)
  have s2': "s\<lparr>currentHook := Some c, hooks := H1, nextAddr := Suc h,
               fibers := F1, workInProgressHook := Some h,
               queues := (queues s)(q := (queues s q)\<lparr>lastRenderedReducer := Some reducer\<rparr>)\<rparr> = s2"
    by (simp add: s2_def Q2_def)
  have c2: "currentHook s2 = Some c"
    by (simp add: s2_def)
  have mrg': "mergePendingQueue c q s2 = (Some (last us), s3)"
    using mrg s3eq by simp
  have first: "next_update (updates s3 (last us)) = Some (hd us)"
    using C3(1) by (simp add: s3)
  have base: "baseState (hooks s3 c) = baseState (hooks s c)"
    by (simp add: s3 H3_def)
  have loop': "reduceLoop R reducer (Some (hd us)) (Some (hd us)) w0 s3 = Some (Inr w', s4)"
    using loop s4eq by simp
  have out: "memoizedState (hooks s7 h) = st'" "dispatch (queues s7 q) = dispatch (queues s q)"
    by (simp_all add: s7 H7_def Q7_def)
  have result: "updateReducer R reducer s = Some (Inr (st', dispatch (queues s q)), s7)"
    unfolding updateReducer_def
    by (simp add: wip q1 Let_def s2' c2 mrg' first base w0_def[symmetric] loop' store out)
  \<comment> \<open>the queues afterwards\<close>
  have U5x: "\<forall>a<Suc h. U5 a = U3 a"
    using U4x by (auto simp: U5_def s3)
  have agree: "\<forall>a\<in>set us. U5 a = U3 a"
    using U5x old by (metis less_Suc_eq)
  have circ5: "circularQueue U5 (last us) us"
    using circularQueue_cong[OF agree] circ3 by simp
  have cont5: "contents U5 us = contents (updates s) us"
    using contents_cong[OF agree] cont3 by simp
  have det: "\<forall>c\<in>set cl'. detach c = c"
    using rebase_detached[OF pure] by simp
  have newq: "queueList U5 (baseQueue (H7 h)) [Suc h..<Suc h + length cl']"
    and newc: "contents U5 [Suc h..<Suc h + length cl'] = cl'"
  proof -
    show "queueList U5 (baseQueue (H7 h)) [Suc h..<Suc h + length cl']"
    proof (cases "cl' = []")
      case True
      then show ?thesis by (simp add: H7_def queueList_def)
    next
      case False
      have "circularQueue U5 (Suc h + length cl' - 1) [Suc h..<Suc h + length cl']"
        using cloneChain_close(1)[OF chain False det] False by (simp add: U5_def)
      then show ?thesis using False by (simp add: H7_def queueList_def)
    qed
    show "contents U5 [Suc h..<Suc h + length cl'] = cl'"
    proof (cases "cl' = []")
      case True
      then show ?thesis by (simp add: contents_def)
    next
      case False
      show ?thesis
        using cloneChain_close(2)[OF chain False det] False by (simp add: U5_def)
    qed
  qed
  have U5old: "\<forall>a<h. a \<notin> set us \<longrightarrow> U5 a = updates s a"
    using U5x U3x by (metis less_Suc_eq)
  have H7c: "H7 c = (hooks s c)\<lparr>baseQueue := Some (last us)\<rparr>"
    using ch by (simp add: H7_def H3_def)
  have H7x: "\<forall>x. x \<noteq> h \<and> x \<noteq> c \<and> Some x \<noteq> workInProgressHook s \<longrightarrow> H7 x = hooks s x"
    using H1x by (simp add: H7_def H3_def)
  have F4g: "\<forall>g. fiber_alternate (F4 g) = fiber_alternate (fibers s g)
            \<and> (g \<noteq> f \<longrightarrow> F4 g = fibers s g)"
    using F1g by (simp add: F4_def)
  have H7h: "H7 h = \<lparr>memoizedState = st', baseState = (if cl' = [] then st' else bst'),
           baseQueue = (if cl' = [] then None else Some (h + length cl')),
           queue = Some q, next_hook = None\<rparr>"
    by (simp add: H7_def)
  have H7w: "\<forall>x. workInProgressHook s = Some x \<longrightarrow> H7 x = (hooks s x)\<lparr>next_hook := Some h\<rparr>"
  proof (intro allI impI)
    fix x assume x: "workInProgressHook s = Some x"
    then have "x \<noteq> h" "x \<noteq> c" using w wc by (auto simp: h_def)
    then show "H7 x = (hooks s x)\<lparr>next_hook := Some h\<rparr>"
      using H1w x by (simp add: H7_def H3_def)
  qed
  have F4f: "fiber_memoizedState (F4 f)
      = (if workInProgressHook s = None then Some h else fiber_memoizedState (fibers s f))"
    using F1f by (simp add: F4_def)
  show ?thesis
    apply (rule exI[of _ s7])
    unfolding h_def[symmetric] us_def[symmetric] s7
    using result circ5 cont5 newq newc U5old H7c H7x F4g H7h H7w F4f
    by (simp add: Q7_def)
qed

section \<open>The walk of the spec in the words of the claims\<close>

lemma applyUpdates_append:
  "applyUpdates R r st (xs @ ys) =
     (case applyUpdates R r st xs of None \<Rightarrow> None | Some m \<Rightarrow> applyUpdates R r m ys)"
  by (induction xs arbitrary: st) (auto split: option.splits)

lemma rebase_after_skip:
  assumes "cl \<noteq> []"
  shows "rebase R r rl xs (st, bst, cl) =
    (case applyUpdates R r st (filter (\<lambda>u. isSubsetOfLanes rl (lane u)) xs) of
       None \<Rightarrow> None
     | Some v \<Rightarrow> Some (v, bst, cl @ map (\<lambda>u. detach (if isSubsetOfLanes rl (lane u)
                                           then u\<lparr>lane := NoLane\<rparr> else u)) xs))"
  using assms
proof (induction xs arbitrary: st cl)
  case Nil
  then show ?case by simp
next
  case (Cons u xs)
  show ?case
  proof (cases "isSubsetOfLanes rl (lane u)")
    case False
    have "rebaseStep R r rl u (st, bst, cl) = Some (st, bst, cl @ [detach u])"
      using False Cons.prems by (simp add: rebaseStep_def)
    then show ?thesis
      using False Cons.IH[of "cl @ [detach u]" st] by (simp split: option.splits)
  next
    case True
    show ?thesis
    proof (cases "if eagerReducer u = Some r then Some (eagerState u) else R r st (action u)")
      case None
      then have "rebaseStep R r rl u (st, bst, cl) = None"
        using True by (auto simp: rebaseStep_def Let_def split: if_splits)
      then show ?thesis using True None by simp
    next
      case (Some v)
      then have "rebaseStep R r rl u (st, bst, cl)
          = Some (v, bst, cl @ [detach (u\<lparr>lane := NoLane\<rparr>)])"
        using True Cons.prems by (auto simp: rebaseStep_def Let_def split: if_splits)
      then show ?thesis
        using True Some Cons.IH[of "cl @ [detach (u\<lparr>lane := NoLane\<rparr>)]" v]
        by (simp split: option.splits)
    qed
  qed
qed

lemma rebase_spec:
  assumes "applyUpdates R r st (filter (\<lambda>u. isSubsetOfLanes rl (lane u)) xs) = Some st'"
  shows "\<exists>m. applyUpdates R r st (takeWhile (\<lambda>u. isSubsetOfLanes rl (lane u)) xs) = Some m
     \<and> rebase R r rl xs (st, bst, [])
         = Some (st', (if rebasedQueue rl xs = [] then bst else m), rebasedQueue rl xs)"
  using assms
proof (induction xs arbitrary: st)
  case Nil
  then show ?case by (simp add: rebasedQueue_def)
next
  case (Cons u xs)
  show ?case
  proof (cases "isSubsetOfLanes rl (lane u)")
    case False
    have step: "rebaseStep R r rl u (st, bst, []) = Some (st, st, [detach u])"
      using False by (simp add: rebaseStep_def)
    have "rebase R r rl xs (st, st, [detach u]) =
       Some (st', st, [detach u] @ map (\<lambda>u. detach (if isSubsetOfLanes rl (lane u)
                                           then u\<lparr>lane := NoLane\<rparr> else u)) xs)"
      using rebase_after_skip[of "[detach u]" R r rl xs st st] Cons.prems False by simp
    then show ?thesis
      using False step by (simp add: rebasedQueue_def)
  next
    case True
    obtain v where v: "(if eagerReducer u = Some r then Some (eagerState u)
                        else R r st (action u)) = Some v"
      and rest: "applyUpdates R r v (filter (\<lambda>u. isSubsetOfLanes rl (lane u)) xs) = Some st'"
      using Cons.prems True by (auto split: option.splits)
    have step: "rebaseStep R r rl u (st, bst, []) = Some (v, bst, [])"
      using True v by (auto simp: rebaseStep_def Let_def split: if_splits)
    obtain m where m: "applyUpdates R r v (takeWhile (\<lambda>u. isSubsetOfLanes rl (lane u)) xs) = Some m"
      and rb: "rebase R r rl xs (v, bst, [])
         = Some (st', (if rebasedQueue rl xs = [] then bst else m), rebasedQueue rl xs)"
      using Cons.IH[OF rest] by blast
    have "rebasedQueue rl (u # xs) = rebasedQueue rl xs"
      using True by (simp add: rebasedQueue_def)
    then show ?thesis
      using True v step m rb by simp
  qed
qed

lemma rebasedQueue_Nil_iff:
  "rebasedQueue rl xs = [] \<longleftrightarrow> (\<forall>u\<in>set xs. isSubsetOfLanes rl (lane u))"
  by (auto simp: rebasedQueue_def dropWhile_eq_Nil_conv)

section \<open>Skipping and rebasing\<close>

text \<open>
  Claim C2. For a reducer hook whose base queue followed by its pending queue holds the
  updates \<open>xs\<close>, and a reducer that does not throw on the updates of sufficient lane,
  \<open>updateReducer\<close> returns the state accumulated over the sufficient updates and leaves on
  the work-in-progress hook: as new base queue a circular list of fresh clones holding,
  from the first skipped update on, every update in order, a skipped one as it is and an
  applied one with its lane cleared to \<open>NoLane\<close>; as new base state the state accumulated
  just before the first skipped update (the final state when nothing was skipped). The
  original updates keep their contents and still form the same list.
\<close>
theorem updateReducer_skip_and_rebase:
  assumes "reducerHookReady s f c q bs ps" and "bs @ ps \<noteq> []"
    and "applyUpdates R reducer (baseState (hooks s c))
           (filter (\<lambda>u. isSubsetOfLanes (renderLanes s) (lane u))
              (contents (updates s) (bs @ ps))) = Some st'"
  shows "(let h = nextAddr s;
              xs = contents (updates s) (bs @ ps);
              sufficient = (\<lambda>u. isSubsetOfLanes (renderLanes s) (lane u));
              clones = [Suc h..<Suc h + length (rebasedQueue (renderLanes s) xs)]
          in \<exists>s' m. updateReducer R reducer s = Some (Inr (st', dispatch (queues s q)), s')
               \<and> memoizedState (hooks s' h) = st'
               \<and> applyUpdates R reducer (baseState (hooks s c)) (takeWhile sufficient xs) = Some m
               \<and> baseState (hooks s' h) = (if \<forall>u\<in>set xs. sufficient u then st' else m)
               \<and> queueList (updates s') (baseQueue (hooks s' h)) clones
               \<and> contents (updates s') clones = rebasedQueue (renderLanes s) xs
               \<and> (\<forall>a\<in>set (bs @ ps). a < h)
               \<and> circularQueue (updates s') (last (bs @ ps)) (bs @ ps)
               \<and> contents (updates s') (bs @ ps) = xs)"
proof -
  define xs where "xs = contents (updates s) (bs @ ps)"
  obtain m where m: "applyUpdates R reducer (baseState (hooks s c))
        (takeWhile (\<lambda>u. isSubsetOfLanes (renderLanes s) (lane u)) xs) = Some m"
    and rb: "rebase R reducer (renderLanes s) xs (baseState (hooks s c), VNull, [])
         = Some (st', (if rebasedQueue (renderLanes s) xs = [] then VNull else m),
                 rebasedQueue (renderLanes s) xs)"
    using rebase_spec[OF assms(3)[folded xs_def], of VNull] by blast
  obtain s' where s': "updateReducer R reducer s = Some (Inr (st', dispatch (queues s q)), s')"
    and hk: "hooks s' (nextAddr s) =
          \<lparr>memoizedState = st',
           baseState = (if rebasedQueue (renderLanes s) xs = [] then st'
                        else (if rebasedQueue (renderLanes s) xs = [] then VNull else m)),
           baseQueue = (if rebasedQueue (renderLanes s) xs = [] then None
                        else Some (nextAddr s + length (rebasedQueue (renderLanes s) xs))),
           queue = Some q, next_hook = None\<rparr>"
    and circ: "circularQueue (updates s') (last (bs @ ps)) (bs @ ps)"
    and cont: "contents (updates s') (bs @ ps) = contents (updates s) (bs @ ps)"
    and newq: "queueList (updates s') (baseQueue (hooks s' (nextAddr s)))
          [Suc (nextAddr s)..<Suc (nextAddr s) + length (rebasedQueue (renderLanes s) xs)]"
    and newc: "contents (updates s')
          [Suc (nextAddr s)..<Suc (nextAddr s) + length (rebasedQueue (renderLanes s) xs)]
          = rebasedQueue (renderLanes s) xs"
    using updateReducer_refines[OF assms(1,2) rb[unfolded xs_def]] unfolding xs_def by blast
  have old: "\<forall>a\<in>set (bs @ ps). a < nextAddr s"
    using assms(1) by (simp add: reducerHookReady_def)
  have bst: "baseState (hooks s' (nextAddr s))
      = (if \<forall>u\<in>set xs. isSubsetOfLanes (renderLanes s) (lane u) then st' else m)"
    by (simp add: hk rebasedQueue_Nil_iff)
  have ms: "memoizedState (hooks s' (nextAddr s)) = st'"
    by (simp add: hk)
  show ?thesis
    unfolding Let_def xs_def[symmetric]
    using s' ms m bst newq newc old circ cont[folded xs_def]
    by (intro exI[of _ s'] exI[of _ m] conjI)
qed

lemma exampleRenderState_simps:
  "updates exampleRenderState 5 = \<lparr>lane = 1, action = VNum 1, eagerReducer = None,
       eagerState = VNull, next_update = Some 6\<rparr>"
  "updates exampleRenderState 6 = \<lparr>lane = 2, action = VNum 10, eagerReducer = None,
       eagerState = VNull, next_update = Some 7\<rparr>"
  "updates exampleRenderState 7 = \<lparr>lane = 1, action = VNum 100, eagerReducer = None,
       eagerState = VNull, next_update = Some 5\<rparr>"
  "queues exampleRenderState 4 = \<lparr>pending = Some 7, dispatch = Some (2, 4),
       lastRenderedReducer = Some 0, lastRenderedState = VNum 0\<rparr>"
  "hooks exampleRenderState 3 = \<lparr>memoizedState = VNum 0, baseState = VNum 0, baseQueue = None,
       queue = Some 4, next_hook = None\<rparr>"
  "fibers exampleRenderState 0 = \<lparr>fiber_memoizedState = None, fiber_updateQueue = None,
       fiber_lanes = 0, fiber_flags = 0, fiber_alternate = Some 2\<rparr>"
  "fibers exampleRenderState 2 = \<lparr>fiber_memoizedState = Some 3, fiber_updateQueue = None,
       fiber_lanes = 3, fiber_flags = 0, fiber_alternate = Some 0\<rparr>"
  "nextAddr exampleRenderState = 10"
  "renderLanes exampleRenderState = 1"
  "currentlyRenderingFiber exampleRenderState = Some 0"
  "currentHook exampleRenderState = None"
  "workInProgressHook exampleRenderState = None"
  by (simp_all add: exampleRenderState_def initialState_def)

lemma exampleRenderState_ready:
  "reducerHookReady exampleRenderState 0 3 4 [] [5, 6, 7]"
  by (simp add: reducerHookReady_def exampleRenderState_simps nextWorkInProgressHook_def
        nextCurrentHook_def queueList_def circularQueue_def)

lemma exampleRenderState_contents:
  "contents (updates exampleRenderState) [5, 6, 7] =
     [\<lparr>lane = 1, action = VNum 1, eagerReducer = None, eagerState = VNull, next_update = None\<rparr>,
      \<lparr>lane = 2, action = VNum 10, eagerReducer = None, eagerState = VNull, next_update = None\<rparr>,
      \<lparr>lane = 1, action = VNum 100, eagerReducer = None, eagerState = VNull, next_update = None\<rparr>]"
  by (simp add: contents_def detach_def exampleRenderState_simps)

lemma example_lanes:
  "isSubsetOfLanes 1 1" "\<not> isSubsetOfLanes 1 2"
  by (simp_all add: isSubsetOfLanes_def)

lemma exampleRenderState_applied:
  "applyUpdates sumReducers 0 (baseState (hooks exampleRenderState 3))
     (filter (\<lambda>u. isSubsetOfLanes (renderLanes exampleRenderState) (lane u))
        (contents (updates exampleRenderState) ([] @ [5, 6, 7]))) = Some (VNum 101)"
  by (simp add: exampleRenderState_contents exampleRenderState_simps example_lanes sumReducers_def)

theorem updateReducer_skip_and_rebase_witness:
  "reducerHookReady exampleRenderState 0 3 4 [] [5, 6, 7]
   \<and> applyUpdates sumReducers 0 (baseState (hooks exampleRenderState 3))
        (filter (\<lambda>u. isSubsetOfLanes (renderLanes exampleRenderState) (lane u))
           (contents (updates exampleRenderState) ([] @ [5, 6, 7]))) = Some (VNum 101)
   \<and> (\<exists>s'. updateReducer sumReducers 0 exampleRenderState
              = Some (Inr (VNum 101, Some (2, 4)), s')
         \<and> memoizedState (hooks s' 10) = VNum 101
         \<and> baseState (hooks s' 10) = VNum 1
         \<and> queueList (updates s') (baseQueue (hooks s' 10)) [11, 12]
         \<and> contents (updates s') [11, 12] =
             [\<lparr>lane = 2, action = VNum 10, eagerReducer = None, eagerState = VNull,
               next_update = None\<rparr>,
              \<lparr>lane = 0, action = VNum 100, eagerReducer = None, eagerState = VNull,
               next_update = None\<rparr>]
         \<and> contents (updates s') [5, 6, 7] = contents (updates exampleRenderState) [5, 6, 7])"
proof -
  have rq: "rebasedQueue 1 (contents (updates exampleRenderState) [5, 6, 7]) =
     [\<lparr>lane = 2, action = VNum 10, eagerReducer = None, eagerState = VNull, next_update = None\<rparr>,
      \<lparr>lane = 0, action = VNum 100, eagerReducer = None, eagerState = VNull, next_update = None\<rparr>]"
    by (simp add: rebasedQueue_def exampleRenderState_contents example_lanes detach_def NoLane_def)
  have tw: "applyUpdates sumReducers 0 (VNum 0)
      (takeWhile (\<lambda>u. isSubsetOfLanes 1 (lane u)) (contents (updates exampleRenderState) [5, 6, 7]))
      = Some (VNum 1)"
    by (simp add: exampleRenderState_contents example_lanes sumReducers_def)
  have up: "[Suc 10..<Suc 10 + 2] = [11, 12]"
    by (simp add: upt_rec)
  obtain s' where "updateReducer sumReducers 0 exampleRenderState
              = Some (Inr (VNum 101, Some (2, 4)), s')"
    "memoizedState (hooks s' 10) = VNum 101"
    "baseState (hooks s' 10) = VNum 1"
    "queueList (updates s') (baseQueue (hooks s' 10)) [11, 12]"
    "contents (updates s') [11, 12] =
             [\<lparr>lane = 2, action = VNum 10, eagerReducer = None, eagerState = VNull,
               next_update = None\<rparr>,
              \<lparr>lane = 0, action = VNum 100, eagerReducer = None, eagerState = VNull,
               next_update = None\<rparr>]"
    "contents (updates s') [5, 6, 7] = contents (updates exampleRenderState) [5, 6, 7]"
    using updateReducer_skip_and_rebase[OF exampleRenderState_ready _ exampleRenderState_applied]
    apply (simp only: Let_def append_Nil)
    apply (simp add: exampleRenderState_simps rq tw up)
    apply (auto simp: exampleRenderState_contents example_lanes)
    done
  then show ?thesis
    using exampleRenderState_ready exampleRenderState_applied by blast
qed

section \<open>What a render attempt does to committed objects\<close>

text \<open>
  Claim C9, as amended. \<open>updateReducer\<close> leaves the committed hook's \<open>memoizedState\<close>,
  \<open>baseState\<close>, \<open>queue\<close> and \<open>next\<close> as they were, changes no other committed hook, no
  other queue and no update outside the hook's own lists, and keeps the contents of every
  update; but it does write to shared objects in place: the committed hook's \<open>baseQueue\<close>
  becomes the spliced list (base queue followed by the pending queue, the same updates in
  the same order), and on the queue \<open>pending\<close> is cleared and \<open>lastRenderedReducer\<close> and
  \<open>lastRenderedState\<close> are overwritten.
\<close>
theorem updateReducer_committed_objects:
  assumes "reducerHookReady s f c q bs ps" and "bs @ ps \<noteq> []"
    and "applyUpdates R reducer (baseState (hooks s c))
           (filter (\<lambda>u. isSubsetOfLanes (renderLanes s) (lane u))
              (contents (updates s) (bs @ ps))) = Some st'"
  shows "\<exists>s'. updateReducer R reducer s = Some (Inr (st', dispatch (queues s q)), s')
     \<and> hooks s' c = (hooks s c)\<lparr>baseQueue := Some (last (bs @ ps))\<rparr>
     \<and> queueList (updates s') (baseQueue (hooks s' c)) (bs @ ps)
     \<and> contents (updates s') (bs @ ps) = contents (updates s) (bs @ ps)
     \<and> queues s' q = (queues s q)\<lparr>pending := None, lastRenderedReducer := Some reducer,
                                   lastRenderedState := st'\<rparr>
     \<and> (\<forall>x. x \<noteq> nextAddr s \<and> x \<noteq> c \<and> Some x \<noteq> workInProgressHook s \<longrightarrow> hooks s' x = hooks s x)
     \<and> (\<forall>x. x \<noteq> q \<longrightarrow> queues s' x = queues s x)
     \<and> (\<forall>a<nextAddr s. a \<notin> set (bs @ ps) \<longrightarrow> updates s' a = updates s a)"
proof -
  obtain m where rb: "rebase R reducer (renderLanes s) (contents (updates s) (bs @ ps))
         (baseState (hooks s c), VNull, [])
         = Some (st', (if rebasedQueue (renderLanes s) (contents (updates s) (bs @ ps)) = []
                       then VNull else m),
                 rebasedQueue (renderLanes s) (contents (updates s) (bs @ ps)))"
    using rebase_spec[OF assms(3), of VNull] by blast
  obtain s' where s': "updateReducer R reducer s = Some (Inr (st', dispatch (queues s q)), s')"
    and hc: "hooks s' c = (hooks s c)\<lparr>baseQueue := Some (last (bs @ ps))\<rparr>"
    and hx: "\<forall>x. x \<noteq> nextAddr s \<and> x \<noteq> c \<and> Some x \<noteq> workInProgressHook s \<longrightarrow> hooks s' x = hooks s x"
    and qs: "queues s' = (queues s)(q := (queues s q)
          \<lparr>pending := None, lastRenderedReducer := Some reducer, lastRenderedState := st'\<rparr>)"
    and circ: "circularQueue (updates s') (last (bs @ ps)) (bs @ ps)"
    and cont: "contents (updates s') (bs @ ps) = contents (updates s) (bs @ ps)"
    and ux: "\<forall>a<nextAddr s. a \<notin> set (bs @ ps) \<longrightarrow> updates s' a = updates s a"
    using updateReducer_refines[OF assms(1,2) rb] by blast
  have ql: "queueList (updates s') (baseQueue (hooks s' c)) (bs @ ps)"
    using circ by (simp add: hc queueList_def)
  have q1: "queues s' q = (queues s q)\<lparr>pending := None, lastRenderedReducer := Some reducer,
                                   lastRenderedState := st'\<rparr>"
    and q2: "\<forall>x. x \<noteq> q \<longrightarrow> queues s' x = queues s x"
    by (simp_all add: qs)
  show ?thesis
    using s' hc ql cont q1 hx q2 ux by (intro exI[of _ s'] conjI)
qed

theorem updateReducer_committed_objects_witness:
  "reducerHookReady exampleRenderState 0 3 4 [] [5, 6, 7]
   \<and> applyUpdates sumReducers 0 (baseState (hooks exampleRenderState 3))
        (filter (\<lambda>u. isSubsetOfLanes (renderLanes exampleRenderState) (lane u))
           (contents (updates exampleRenderState) ([] @ [5, 6, 7]))) = Some (VNum 101)
   \<and> (\<exists>s'. updateReducer sumReducers 0 exampleRenderState
              = Some (Inr (VNum 101, Some (2, 4)), s')
         \<and> memoizedState (hooks s' 3) = VNum 0
         \<and> baseState (hooks s' 3) = VNum 0
         \<and> queueList (updates s') (baseQueue (hooks s' 3)) [5, 6, 7]
         \<and> contents (updates s') [5, 6, 7] = contents (updates exampleRenderState) [5, 6, 7])"
proof -
  obtain s' where "updateReducer sumReducers 0 exampleRenderState
              = Some (Inr (VNum 101, Some (2, 4)), s')"
    "hooks s' 3 = (hooks exampleRenderState 3)\<lparr>baseQueue := Some 7\<rparr>"
    "queueList (updates s') (baseQueue (hooks s' 3)) [5, 6, 7]"
    "contents (updates s') [5, 6, 7] = contents (updates exampleRenderState) [5, 6, 7]"
    using updateReducer_committed_objects[OF exampleRenderState_ready _ exampleRenderState_applied]
    by (auto simp: exampleRenderState_simps)
  then show ?thesis
    using exampleRenderState_ready exampleRenderState_applied
    by (auto simp: exampleRenderState_simps)
qed

lemma exampleRenderState_rebase:
  "rebase sumReducers 0 (renderLanes exampleRenderState)
     (contents (updates exampleRenderState) ([] @ [5, 6, 7]))
     (baseState (hooks exampleRenderState 3), VNull, [])
   = Some (VNum 101, VNum 1,
       [\<lparr>lane = 2, action = VNum 10, eagerReducer = None, eagerState = VNull, next_update = None\<rparr>,
        \<lparr>lane = 0, action = VNum 100, eagerReducer = None, eagerState = VNull, next_update = None\<rparr>])"
  by (simp add: exampleRenderState_contents exampleRenderState_simps example_lanes
        rebaseStep_def sumReducers_def detach_def NoLane_def)

text \<open>
  The claim as stated fails: the render attempt on the example state writes the pending
  list into the committed hook's \<open>baseQueue\<close> and changes the shared queue object.
\<close>
theorem updateReducer_mutates_committed_counterexample:
  "baseQueue (hooks exampleRenderState 3) = None
   \<and> pending (queues exampleRenderState 4) = Some 7
   \<and> lastRenderedState (queues exampleRenderState 4) = VNum 0
   \<and> (case updateReducer sumReducers 0 exampleRenderState of
         None \<Rightarrow> False
       | Some (r, s') \<Rightarrow>
           baseQueue (hooks s' 3) = Some 7
           \<and> pending (queues s' 4) = None
           \<and> lastRenderedState (queues s' 4) = VNum 101)"
proof -
  obtain s' where "updateReducer sumReducers 0 exampleRenderState
              = Some (Inr (VNum 101, dispatch (queues exampleRenderState 4)), s')"
    "hooks s' 3 = (hooks exampleRenderState 3)\<lparr>baseQueue := Some (last ([] @ [5, 6, 7]))\<rparr>"
    "queues s' = (queues exampleRenderState)(4 := (queues exampleRenderState 4)
          \<lparr>pending := None, lastRenderedReducer := Some 0, lastRenderedState := VNum 101\<rparr>)"
    using updateReducer_refines[OF exampleRenderState_ready _ exampleRenderState_rebase]
    by auto
  then show ?thesis
    by (simp add: exampleRenderState_simps)
qed
section \<open>Render-phase updates\<close>

lemma enqueueUpdate_refines:
  assumes ql: "queueList (updates s) (pending (queues s q)) ps"
    and old: "\<forall>a\<in>set ps. a < nextAddr s"
  shows "\<exists>U. enqueueUpdate q act l s =
           s\<lparr>updates := U, nextAddr := Suc (nextAddr s),
             queues := (queues s)(q := (queues s q)\<lparr>pending := Some (nextAddr s)\<rparr>)\<rparr>
         \<and> circularQueue U (nextAddr s) (ps @ [nextAddr s])
         \<and> contents U (ps @ [nextAddr s]) = contents (updates s) ps @
              [\<lparr>lane = l, action = act, eagerReducer = None, eagerState = VNull,
                next_update = None\<rparr>]
         \<and> (\<forall>a. a \<noteq> nextAddr s \<and> a \<notin> set ps \<longrightarrow> U a = updates s a)"
proof (cases "ps = []")
  case True
  define u where "u = nextAddr s"
  define U where "U = (updates s)(u := \<lparr>lane = l, action = act, eagerReducer = None,
                                eagerState = VNull, next_update = Some u\<rparr>)"
  have pn: "pending (queues s q) = None"
    using ql True by (simp add: queueList_Nil)
  have "enqueueUpdate q act l s =
           s\<lparr>updates := U, nextAddr := Suc u,
             queues := (queues s)(q := (queues s q)\<lparr>pending := Some u\<rparr>)\<rparr>"
    by (simp add: enqueueUpdate_def Let_def pn U_def u_def)
  moreover have "circularQueue U u (ps @ [u])"
    using True by (simp add: circularQueue_def U_def)
  moreover have "contents U (ps @ [u]) = contents (updates s) ps @
              [\<lparr>lane = l, action = act, eagerReducer = None, eagerState = VNull,
                next_update = None\<rparr>]"
    using True by (simp add: contents_def U_def detach_def)
  moreover have "\<forall>a. a \<noteq> u \<and> a \<notin> set ps \<longrightarrow> U a = updates s a"
    by (simp add: U_def)
  ultimately show ?thesis
    unfolding u_def by blast
next
  case False
  define u where "u = nextAddr s"
  define p where "p = last ps"
  note P = queueList_nonempty[OF ql False, folded p_def]
  note C = circularQueue_first[OF P(2)]
  have pin: "p \<in> set ps" using False by (simp add: p_def)
  have pu: "p \<noteq> u" and ups: "u \<notin> set ps"
    using old pin by (auto simp: u_def)
  define U1 where "U1 = (updates s)(u := \<lparr>lane = l, action = act, eagerReducer = None,
                                eagerState = VNull, next_update = Some (hd ps)\<rparr>)"
  define U where "U = U1(p := (U1 p)\<lparr>next_update := Some u\<rparr>)"
  have "enqueueUpdate q act l s =
           s\<lparr>updates := U, nextAddr := Suc u,
             queues := (queues s)(q := (queues s q)\<lparr>pending := Some u\<rparr>)\<rparr>"
    using pu by (simp add: enqueueUpdate_def Let_def P(1) U_def U1_def u_def[symmetric] C(1))
  moreover have "circularQueue U u (ps @ [u])"
  proof -
    have "updatePath U1 (Some (hd ps)) ps (Some (hd ps))
        = updatePath (updates s) (Some (hd ps)) ps (Some (hd ps))"
      by (rule updatePath_cong) (use ups in \<open>auto simp: U1_def\<close>)
    then have p1: "updatePath U1 (Some (hd ps)) ps (Some (hd ps))"
      using C(5) by simp
    have p2: "updatePath U (Some (hd ps)) ps (Some u)"
      using updatePath_upd_last[OF p1 C(4) False, of "Some u"] by (simp add: U_def p_def)
    have nu: "next_update (U u) = Some (hd ps)"
      using pu by (simp add: U_def U1_def)
    have "updatePath U (Some (hd (ps @ [u]))) (ps @ [u]) (Some (hd (ps @ [u])))"
      using p2 nu False by (simp add: updatePath_append)
    moreover have "distinct (ps @ [u])" using C(4) ups by simp
    ultimately have "circularQueue U (last (ps @ [u])) (ps @ [u])"
      by (intro circularQueueI) simp_all
    then show ?thesis by simp
  qed
  moreover have "contents U (ps @ [u]) = contents (updates s) ps @
              [\<lparr>lane = l, action = act, eagerReducer = None, eagerState = VNull,
                next_update = None\<rparr>]"
  proof -
    have "detach (U a) = detach (updates s a)" if "a \<in> set ps" for a
      using that ups by (cases "a = p") (auto simp: U_def U1_def)
    moreover have "detach (U u) = \<lparr>lane = l, action = act, eagerReducer = None,
        eagerState = VNull, next_update = None\<rparr>"
      using pu by (simp add: U_def U1_def detach_def)
    ultimately show ?thesis
      by (simp add: contents_def)
  qed
  moreover have "\<forall>a. a \<noteq> u \<and> a \<notin> set ps \<longrightarrow> U a = updates s a"
    using pin by (auto simp: U_def U1_def)
  ultimately show ?thesis
    unfolding u_def by blast
qed

lemma renderPhaseLoop_refines:
  assumes "updatePath (updates s) (Some r) (r # rs) first"
    and "\<forall>a\<in>set rs. Some a \<noteq> first"
    and "applyActions R reducer st (map action (contents (updates s) (r # rs))) = Some v"
  shows "renderPhaseLoop R reducer first (Some r) st s = Some (Inr v)"
  using assms
proof (induction rs arbitrary: r st)
  case Nil
  then show ?case
    by (subst renderPhaseLoop.simps) (auto simp: contents_def Let_def split: option.splits)
next
  case (Cons r' rs)
  obtain v1 where v1: "R reducer st (action (updates s r)) = Some v1"
    and rest: "applyActions R reducer v1 (map action (contents (updates s) (r' # rs))) = Some v"
    using Cons.prems(3) by (auto simp: contents_def split: option.splits)
  have nx: "next_update (updates s r) = Some r'" and go: "Some r' \<noteq> first"
    and path: "updatePath (updates s) (Some r') (r' # rs) first"
    using Cons.prems(1,2) by simp_all
  have "renderPhaseLoop R reducer first (Some r) st s
      = renderPhaseLoop R reducer first (Some r') v1 s"
    by (subst renderPhaseLoop.simps) (simp add: v1 nx go Let_def)
  also have "\<dots> = Some (Inr v)"
    using Cons.IH[OF path _ rest] Cons.prems(2) by simp
  finally show ?case .
qed

lemma dispatchAll_simps:
  "dispatchAll R fiber q [] s = s"
  "dispatchAll R fiber q (d # ds) s
     = dispatchAll R fiber q ds (dispatchAction R fiber q (fst d) (snd d) s)"
  by (simp_all add: dispatchAll_def)

lemma dispatchAction_render_phase:
  assumes "currentlyRenderingFiber s = Some f"
    and "fiber = f \<or> fiber_alternate (fibers s fiber) = Some f"
  shows "dispatchAction R fiber q act l s =
    (enqueueUpdate q act l s)\<lparr>didScheduleRenderPhaseUpdateDuringThisPass := True,
                              didScheduleRenderPhaseUpdate := True\<rparr>"
proof -
  have "currentlyRenderingFiber (enqueueUpdate q act l s) = Some f"
    "fibers (enqueueUpdate q act l s) = fibers s"
    using assms(1) by (simp_all add: enqueueUpdate_def Let_def)
  then show ?thesis
    using assms(2) by (auto simp: dispatchAction_def Let_def)
qed

lemma dispatchAll_render_phase:
  assumes "currentlyRenderingFiber s = Some f"
    and "fiber = f \<or> fiber_alternate (fibers s fiber) = Some f"
    and "queueList (updates s) (pending (queues s q)) ps"
    and "\<forall>a\<in>set ps. a < nextAddr s"
  shows "nextAddr (dispatchAll R fiber q ds s) = nextAddr s + length ds
     \<and> queueList (updates (dispatchAll R fiber q ds s))
          (pending (queues (dispatchAll R fiber q ds s) q))
          (ps @ [nextAddr s..<nextAddr s + length ds])
     \<and> contents (updates (dispatchAll R fiber q ds s)) (ps @ [nextAddr s..<nextAddr s + length ds])
         = contents (updates s) ps @ map dispatchedUpdate ds
     \<and> scheduledUpdates (dispatchAll R fiber q ds s) = scheduledUpdates s
     \<and> fibers (dispatchAll R fiber q ds s) = fibers s
     \<and> hooks (dispatchAll R fiber q ds s) = hooks s
     \<and> currentlyRenderingFiber (dispatchAll R fiber q ds s) = Some f
     \<and> (\<forall>x. x \<noteq> q \<longrightarrow> queues (dispatchAll R fiber q ds s) x = queues s x)
     \<and> (ds \<noteq> [] \<longrightarrow> didScheduleRenderPhaseUpdateDuringThisPass (dispatchAll R fiber q ds s)
                  \<and> didScheduleRenderPhaseUpdate (dispatchAll R fiber q ds s))"
  using assms
proof (induction ds arbitrary: s ps)
  case Nil
  then show ?case by (simp add: dispatchAll_simps)
next
  case (Cons d ds)
  define s1 where "s1 = dispatchAction R fiber q (fst d) (snd d) s"
  obtain U where enq: "enqueueUpdate q (fst d) (snd d) s =
           s\<lparr>updates := U, nextAddr := Suc (nextAddr s),
             queues := (queues s)(q := (queues s q)\<lparr>pending := Some (nextAddr s)\<rparr>)\<rparr>"
    and circ: "circularQueue U (nextAddr s) (ps @ [nextAddr s])"
    and cont: "contents U (ps @ [nextAddr s]) = contents (updates s) ps @
              [\<lparr>lane = snd d, action = fst d, eagerReducer = None, eagerState = VNull,
                next_update = None\<rparr>]"
    using enqueueUpdate_refines[OF Cons.prems(3,4), of "fst d" "snd d"] by blast
  have s1: "s1 = s\<lparr>updates := U, nextAddr := Suc (nextAddr s),
             queues := (queues s)(q := (queues s q)\<lparr>pending := Some (nextAddr s)\<rparr>),
             didScheduleRenderPhaseUpdateDuringThisPass := True,
             didScheduleRenderPhaseUpdate := True\<rparr>"
    unfolding s1_def dispatchAction_render_phase[OF Cons.prems(1,2)] enq by simp
  have f1: "updates s1 = U" "nextAddr s1 = Suc (nextAddr s)" "fibers s1 = fibers s"
    "hooks s1 = hooks s" "scheduledUpdates s1 = scheduledUpdates s"
    "currentlyRenderingFiber s1 = Some f" "pending (queues s1 q) = Some (nextAddr s)"
    "didScheduleRenderPhaseUpdateDuringThisPass s1" "didScheduleRenderPhaseUpdate s1"
    "\<And>x. x \<noteq> q \<Longrightarrow> queues s1 x = queues s x"
    using Cons.prems(1) by (simp_all add: s1)
  have p1: "currentlyRenderingFiber s1 = Some f"
    "fiber = f \<or> fiber_alternate (fibers s1 fiber) = Some f"
    "queueList (updates s1) (pending (queues s1 q)) (ps @ [nextAddr s])"
    "\<forall>a\<in>set (ps @ [nextAddr s]). a < nextAddr s1"
    using Cons.prems(2,4) circ by (auto simp: f1 queueList_def)
  define N where "N = [nextAddr s1..<nextAddr s1 + length ds]"
  define S where "S = dispatchAll R fiber q ds s1"
  note IH = Cons.IH[OF p1, folded s1_def, folded N_def S_def]
  have unf: "dispatchAll R fiber q (d # ds) s = S"
    by (simp add: dispatchAll_simps s1_def S_def)
  have rng: "ps @ [nextAddr s..<nextAddr s + length (d # ds)] = (ps @ [nextAddr s]) @ N"
  proof -
    have "[nextAddr s..<nextAddr s + length (d # ds)]
        = nextAddr s # [Suc (nextAddr s)..<nextAddr s + length (d # ds)]"
      by (rule upt_conv_Cons) simp
    moreover have "nextAddr s1 + length ds = nextAddr s + length (d # ds)"
      by (simp add: f1)
    ultimately show ?thesis
      by (simp only: N_def f1(2) append_assoc append.simps)
  qed
  have du: "dispatchedUpdate d = \<lparr>lane = snd d, action = fst d, eagerReducer = None,
      eagerState = VNull, next_update = None\<rparr>"
    by (simp add: dispatchedUpdate_def)
  have fl: "didScheduleRenderPhaseUpdateDuringThisPass S \<and> didScheduleRenderPhaseUpdate S"
  proof (cases "ds = []")
    case True
    then show ?thesis by (simp add: S_def dispatchAll_simps f1)
  next
    case False
    then show ?thesis using IH by simp
  qed
  have "nextAddr S = nextAddr s + length (d # ds)"
    using IH by (simp add: f1)
  moreover have "queueList (updates S) (pending (queues S q)) ((ps @ [nextAddr s]) @ N)"
    using IH by simp
  moreover have "contents (updates S) ((ps @ [nextAddr s]) @ N)
      = contents (updates s) ps @ map dispatchedUpdate (d # ds)"
    using IH by (simp add: f1 cont du)
  moreover have "scheduledUpdates S = scheduledUpdates s" "fibers S = fibers s"
    "hooks S = hooks s" "currentlyRenderingFiber S = Some f"
    "\<forall>x. x \<noteq> q \<longrightarrow> queues S x = queues s x"
    using IH by (simp_all add: f1)
  ultimately show ?case
    unfolding unf rng using fl by blast
qed

lemma updateWorkInProgressHook_frame:
  assumes "updateWorkInProgressHook t = (r, t1)"
  shows "updates t1 = updates t" and "queues t1 = queues t"
    and "didReceiveUpdate t1 = didReceiveUpdate t" and "scheduledUpdates t1 = scheduledUpdates t"
proof -
  have "updates t1 = updates t \<and> queues t1 = queues t
      \<and> didReceiveUpdate t1 = didReceiveUpdate t \<and> scheduledUpdates t1 = scheduledUpdates t"
    using assms
    by (auto simp: updateWorkInProgressHook_def Let_def
             split: sum.splits option.splits)
  then show "updates t1 = updates t" and "queues t1 = queues t"
    and "didReceiveUpdate t1 = didReceiveUpdate t" and "scheduledUpdates t1 = scheduledUpdates t"
    by simp_all
qed

lemma rerenderReducer_refines:
  assumes wip: "updateWorkInProgressHook t = (Inr h, t1)"
    and q: "queue (hooks t1 h) = Some q"
    and ql: "queueList (updates t) (pending (queues t q)) us" and ne: "us \<noteq> []"
    and ap: "applyActions R reducer (memoizedState (hooks t1 h))
               (map action (contents (updates t) us)) = Some v"
  shows "\<exists>t'. rerenderReducer R reducer t = Some (Inr (v, dispatch (queues t q)), t')
     \<and> queues t' = (queues t)(q := (queues t q)\<lparr>pending := None,
           lastRenderedReducer := Some reducer, lastRenderedState := v\<rparr>)
     \<and> hooks t' = (hooks t1)(h := (hooks t1 h)\<lparr>memoizedState := v,
           baseState := (if baseQueue (hooks t1 h) = None then v else baseState (hooks t1 h))\<rparr>)
     \<and> updates t' = updates t
     \<and> workInProgressHook t' = workInProgressHook t1
     \<and> currentHook t' = currentHook t1
     \<and> scheduledUpdates t' = scheduledUpdates t
     \<and> didReceiveUpdate t' = (didReceiveUpdate t \<or> v \<noteq> memoizedState (hooks t1 h))"
proof -
  note fr = updateWorkInProgressHook_frame[OF wip]
  define p where "p = last us"
  note P = queueList_nonempty[OF ql ne, folded p_def]
  note C = circularQueue_first[OF P(2)]
  obtain r rs where us: "us = r # rs" using ne by (cases us) auto
  define s3 where "s3 = t1\<lparr>queues := (queues t)(q := (queues t q)
      \<lparr>lastRenderedReducer := Some reducer, pending := None\<rparr>)\<rparr>"
  have s3: "updates s3 = updates t" "hooks s3 = hooks t1"
    by (simp_all add: s3_def fr)
  have path: "updatePath (updates s3) (Some r) (r # rs) (Some r)"
    using C(5) by (simp add: us s3)
  have stop: "\<forall>a\<in>set rs. Some a \<noteq> Some r"
    using C(4) by (auto simp: us)
  have ap': "applyActions R reducer (memoizedState (hooks t1 h))
               (map action (contents (updates s3) (r # rs))) = Some v"
    using ap by (simp add: us s3)
  have loop: "renderPhaseLoop R reducer (Some r) (Some r) (memoizedState (hooks t1 h)) s3
      = Some (Inr v)"
    by (rule renderPhaseLoop_refines[OF path stop ap'])
  have first: "next_update (updates t p) = Some r"
    using C(1) by (simp add: us)
  define t' where "t' = (let s4 = (if \<not> objectIs v (memoizedState (hooks s3 h))
                                       then markWorkInProgressReceivedUpdate s3 else s3);
                                 s5 = s4\<lparr>hooks := (hooks s4)(h := (hooks s4 h)\<lparr>memoizedState := v\<rparr>)\<rparr>;
                                 s6 = (if baseQueue (hooks s5 h) = None
                                       then s5\<lparr>hooks := (hooks s5)(h := (hooks s5 h)\<lparr>baseState := v\<rparr>)\<rparr>
                                       else s5)
                             in s6\<lparr>queues := (queues s6)(q := (queues s6 q)\<lparr>lastRenderedState := v\<rparr>)\<rparr>)"
  have s3': "t1\<lparr>queues := (queues t)(q := queues t q
        \<lparr>lastRenderedReducer := Some reducer, pending := None\<rparr>)\<rparr> = s3"
    by (simp add: s3_def)
  have run: "rerenderReducer R reducer t = Some (Inr (v, dispatch (queues t q)), t')"
    unfolding rerenderReducer_def wip
    by (simp add: q fr P(1) Let_def first s3' loop s3 t'_def)
  have "queues t' = (queues t)(q := (queues t q)\<lparr>pending := None,
           lastRenderedReducer := Some reducer, lastRenderedState := v\<rparr>)"
    by (rule ext) (simp add: t'_def Let_def s3_def markWorkInProgressReceivedUpdate_def
        updateQueue.equality)
  moreover have "hooks t' = (hooks t1)(h := (hooks t1 h)\<lparr>memoizedState := v,
           baseState := (if baseQueue (hooks t1 h) = None then v else baseState (hooks t1 h))\<rparr>)"
    by (rule ext) (simp add: t'_def Let_def s3_def markWorkInProgressReceivedUpdate_def
        hook.equality)
  moreover have "updates t' = updates t" "workInProgressHook t' = workInProgressHook t1"
    "currentHook t' = currentHook t1" "scheduledUpdates t' = scheduledUpdates t"
    "didReceiveUpdate t' = (didReceiveUpdate t \<or> v \<noteq> memoizedState (hooks t1 h))"
    by (auto simp: t'_def Let_def s3_def markWorkInProgressReceivedUpdate_def fr objectIs_def)
  ultimately show ?thesis
    using run by blast
qed

lemma queueList_cong:
  assumes "\<forall>a\<in>set xs. U' a = U a"
  shows "queueList U' p xs = queueList U p xs"
  using circularQueue_cong[OF assms] by (simp add: queueList_def split: option.splits)

text \<open>
  Claim C7. Calls of \<open>dispatchAction\<close> on the fiber that is rendering, or on its alternate,
  append their updates to the queue in call order, raise the two render-phase flags and do
  not call \<open>scheduleUpdateOnFiber\<close> (nothing is scheduled, no fiber changes). When a later
  \<open>rerenderReducer\<close> reaches a hook with that queue, with the pending list as the calls left
  it, it returns the left fold of the reducer over the actions of all pending updates in
  enqueue order, starting from the state of the work-in-progress hook, whatever the lanes of
  the updates and of the render are; the hook and the queue take that state and the
  pending list is empty.
\<close>
theorem dispatchAction_render_phase_rerender:
  assumes "currentlyRenderingFiber s = Some f"
    and "fiber = f \<or> fiber_alternate (fibers s fiber) = Some f"
    and "queueList (updates s) (pending (queues s q)) ps"
    and "\<forall>a\<in>set ps. a < nextAddr s"
    and "ds \<noteq> []"
    and "updateWorkInProgressHook t = (Inr h, t1)"
    and "queue (hooks t1 h) = Some q"
    and "pending (queues t q) = pending (queues (dispatchAll R fiber q ds s) q)"
    and "\<forall>a\<in>set (ps @ [nextAddr s..<nextAddr s + length ds]).
           updates t a = updates (dispatchAll R fiber q ds s) a"
    and "applyActions R reducer (memoizedState (hooks t1 h))
           (map action (contents (updates s) ps) @ map fst ds) = Some v"
  shows "scheduledUpdates (dispatchAll R fiber q ds s) = scheduledUpdates s
     \<and> fibers (dispatchAll R fiber q ds s) = fibers s
     \<and> didScheduleRenderPhaseUpdateDuringThisPass (dispatchAll R fiber q ds s)
     \<and> didScheduleRenderPhaseUpdate (dispatchAll R fiber q ds s)
     \<and> queueList (updates (dispatchAll R fiber q ds s))
          (pending (queues (dispatchAll R fiber q ds s) q))
          (ps @ [nextAddr s..<nextAddr s + length ds])
     \<and> contents (updates (dispatchAll R fiber q ds s)) (ps @ [nextAddr s..<nextAddr s + length ds])
         = contents (updates s) ps @ map dispatchedUpdate ds
     \<and> (\<exists>t'. rerenderReducer R reducer t = Some (Inr (v, dispatch (queues t q)), t')
           \<and> pending (queues t' q) = None
           \<and> memoizedState (hooks t' h) = v
           \<and> lastRenderedState (queues t' q) = v
           \<and> updates t' = updates t
           \<and> scheduledUpdates t' = scheduledUpdates t)"
proof -
  define s1 where "s1 = dispatchAll R fiber q ds s"
  define us where "us = ps @ [nextAddr s..<nextAddr s + length ds]"
  note D = dispatchAll_render_phase[OF assms(1-4), of R ds, folded s1_def us_def]
  have ql1: "queueList (updates s1) (pending (queues s1 q)) us"
    and c1: "contents (updates s1) us = contents (updates s) ps @ map dispatchedUpdate ds"
    using D by simp_all
  have agree: "\<forall>a\<in>set us. updates t a = updates s1 a"
    using assms(9) by (simp add: s1_def us_def)
  have ql: "queueList (updates t) (pending (queues t q)) us"
    using ql1 queueList_cong[OF agree] assms(8) by (simp add: s1_def)
  have ne: "us \<noteq> []"
    using assms(5) by (simp add: us_def)
  have acts: "map action (contents (updates t) us)
      = map action (contents (updates s) ps) @ map fst ds"
    unfolding contents_cong[OF agree] c1
    by (simp add: dispatchedUpdate_def)
  have ap: "applyActions R reducer (memoizedState (hooks t1 h))
               (map action (contents (updates t) us)) = Some v"
    using assms(10) by (simp add: acts)
  obtain t' where t': "rerenderReducer R reducer t = Some (Inr (v, dispatch (queues t q)), t')"
    and qs: "queues t' = (queues t)(q := (queues t q)\<lparr>pending := None,
           lastRenderedReducer := Some reducer, lastRenderedState := v\<rparr>)"
    and hs: "hooks t' = (hooks t1)(h := (hooks t1 h)\<lparr>memoizedState := v,
           baseState := (if baseQueue (hooks t1 h) = None then v else baseState (hooks t1 h))\<rparr>)"
    and rest: "updates t' = updates t" "scheduledUpdates t' = scheduledUpdates t"
    using rerenderReducer_refines[OF assms(6,7) ql ne ap] by blast
  have "\<exists>t'. rerenderReducer R reducer t = Some (Inr (v, dispatch (queues t q)), t')
           \<and> pending (queues t' q) = None
           \<and> memoizedState (hooks t' h) = v
           \<and> lastRenderedState (queues t' q) = v
           \<and> updates t' = updates t
           \<and> scheduledUpdates t' = scheduledUpdates t"
    using t' rest by (intro exI[of _ t']) (simp add: qs hs)
  moreover have "didScheduleRenderPhaseUpdateDuringThisPass s1" "didScheduleRenderPhaseUpdate s1"
    using D assms(5) by simp_all
  moreover have "scheduledUpdates s1 = scheduledUpdates s" "fibers s1 = fibers s"
    using D by simp_all
  ultimately show ?thesis
    using ql1 c1 unfolding s1_def us_def by blast
qed

lemma exampleRerenderState_simps:
  "currentlyRenderingFiber exampleRerenderState = Some 0"
  "fibers exampleRerenderState 0 = \<lparr>fiber_memoizedState = Some 8, fiber_updateQueue = None,
       fiber_lanes = 0, fiber_flags = 0, fiber_alternate = Some 2\<rparr>"
  "fibers exampleRerenderState 2 = \<lparr>fiber_memoizedState = Some 3, fiber_updateQueue = None,
       fiber_lanes = 3, fiber_flags = 0, fiber_alternate = Some 0\<rparr>"
  "queues exampleRerenderState 4 = \<lparr>pending = None, dispatch = Some (2, 4),
       lastRenderedReducer = Some 0, lastRenderedState = VNum 0\<rparr>"
  "hooks exampleRerenderState 8 = \<lparr>memoizedState = VNum 0, baseState = VNum 0,
       baseQueue = None, queue = Some 4, next_hook = None\<rparr>"
  "nextAddr exampleRerenderState = 10"
  "renderLanes exampleRerenderState = 1"
  "scheduledUpdates exampleRerenderState = []"
  by (simp_all add: exampleRerenderState_def exampleRenderState_def initialState_def)

text \<open>
  Two render-phase dispatches on the example, at lanes 1 and 2 while lane 1 is rendered,
  then the re-render: both are applied.
\<close>
theorem dispatchAction_render_phase_rerender_witness:
  "currentlyRenderingFiber exampleRerenderState = Some 0
   \<and> fiber_alternate (fibers exampleRerenderState 2) = Some 0
   \<and> pending (queues exampleRerenderState 4) = None
   \<and> renderLanes exampleRerenderState = 1
   \<and> fst (updateWorkInProgressHook (startRerender 0
        (dispatchAll sumReducers 2 4 [(VNum 1, 1), (VNum 10, 2)] exampleRerenderState))) = Inr 8
   \<and> scheduledUpdates (dispatchAll sumReducers 2 4 [(VNum 1, 1), (VNum 10, 2)]
        exampleRerenderState) = []
   \<and> (\<exists>t'. rerenderReducer sumReducers 0 (startRerender 0
        (dispatchAll sumReducers 2 4 [(VNum 1, 1), (VNum 10, 2)] exampleRerenderState))
          = Some (Inr (VNum 11, Some (2, 4)), t')
        \<and> pending (queues t' 4) = None \<and> memoizedState (hooks t' 8) = VNum 11)"
proof -
  define ds :: "(jsval \<times> lanes) list" where "ds = [(VNum 1, 1), (VNum 10, 2)]"
  define s1 where "s1 = dispatchAll sumReducers 2 4 ds exampleRerenderState"
  define t where "t = startRerender 0 s1"
  define t1 where "t1 = t\<lparr>workInProgressHook := Some 8, currentHook := Some 3\<rparr>"
  have rp: "(2::nat) = 0 \<or> fiber_alternate (fibers exampleRerenderState 2) = Some 0"
    by (simp add: exampleRerenderState_simps)
  have ql: "queueList (updates exampleRerenderState) (pending (queues exampleRerenderState 4)) []"
    by (simp add: queueList_def exampleRerenderState_simps)
  have old: "\<forall>a\<in>set []. a < nextAddr exampleRerenderState"
    by simp
  note D = dispatchAll_render_phase[OF exampleRerenderState_simps(1) rp ql old,
      of sumReducers ds, folded s1_def]
  have s1: "fibers s1 = fibers exampleRerenderState" "hooks s1 = hooks exampleRerenderState"
    "currentlyRenderingFiber s1 = Some 0" "queues s1 2 = queues exampleRerenderState 2"
    using D by simp_all
  have d4: "dispatch (queues s1 4) = Some (2, 4)"
  proof -
    have "\<And>s a l. dispatch (queues (dispatchAction sumReducers 2 4 a l s) 4)
        = dispatch (queues s 4)"
      by (simp add: dispatchAction_def enqueueUpdate_def Let_def scheduleUpdateOnFiber_def
          split: option.splits)
    then show ?thesis
      by (simp add: s1_def ds_def dispatchAll_simps exampleRerenderState_simps)
  qed
  have wip: "updateWorkInProgressHook t = (Inr 8, t1)"
    by (simp add: updateWorkInProgressHook_def nextCurrentHook_def nextWorkInProgressHook_def
        t_def t1_def startRerender_def s1 exampleRerenderState_simps)
  have q: "queue (hooks t1 8) = Some 4"
    by (simp add: t1_def t_def startRerender_def s1 exampleRerenderState_simps)
  have pend: "pending (queues t 4) = pending (queues s1 4)"
    by (simp add: t_def startRerender_def)
  have agree: "\<forall>a\<in>set ([] @ [nextAddr exampleRerenderState..<nextAddr exampleRerenderState + length ds]).
      updates t a = updates s1 a"
    by (simp add: t_def startRerender_def)
  have ap: "applyActions sumReducers 0 (memoizedState (hooks t1 8))
           (map action (contents (updates exampleRerenderState) []) @ map fst ds) = Some (VNum 11)"
    by (simp add: t1_def t_def startRerender_def s1 exampleRerenderState_simps ds_def
        contents_def sumReducers_def)
  have ne: "ds \<noteq> []" by (simp add: ds_def)
  note T = dispatchAction_render_phase_rerender[OF exampleRerenderState_simps(1) rp ql old ne
      wip q pend[unfolded s1_def] agree[unfolded s1_def] ap, folded s1_def, folded t_def]
  have a: "scheduledUpdates s1 = []"
    using T by (simp add: exampleRerenderState_simps)
  obtain t' where "rerenderReducer sumReducers 0 t = Some (Inr (VNum 11, dispatch (queues t 4)), t')"
    "pending (queues t' 4) = None" "memoizedState (hooks t' 8) = VNum 11"
    using T by blast
  moreover have "dispatch (queues t 4) = Some (2, 4)"
    using d4 by (simp add: t_def startRerender_def)
  ultimately have b: "\<exists>t'. rerenderReducer sumReducers 0 t = Some (Inr (VNum 11, Some (2, 4)), t')
        \<and> pending (queues t' 4) = None \<and> memoizedState (hooks t' 8) = VNum 11"
    by auto
  have c: "fst (updateWorkInProgressHook t) = Inr 8"
    by (simp add: wip)
  show ?thesis
    using a b c unfolding t_def s1_def ds_def
    by (simp add: exampleRerenderState_simps)
qed

section \<open>The state of a reducer hook is the fold of its actions\<close>








lemma scheduleUpdateOnFiber_cursors [simp]:
  "currentHook (scheduleUpdateOnFiber f l s) = currentHook s"
  "workInProgressHook (scheduleUpdateOnFiber f l s) = workInProgressHook s"
  "renderLanes (scheduleUpdateOnFiber f l s) = renderLanes s"
  by (simp_all add: scheduleUpdateOnFiber_def Let_def split: option.splits)






lemma startRender_simps:
  "renderLanes (startRender (Some cur) w rl s) = rl"
  "currentlyRenderingFiber (startRender (Some cur) w rl s) = Some w"
  "fibers (startRender (Some cur) w rl s) = (fibers s)(w := (fibers s w)
       \<lparr>fiber_memoizedState := None, fiber_updateQueue := None, fiber_lanes := NoLanes\<rparr>)"
  "updates (startRender (Some cur) w rl s) = updates s"
  "hooks (startRender (Some cur) w rl s) = hooks s"
  "queues (startRender (Some cur) w rl s) = queues s"
  "nextAddr (startRender (Some cur) w rl s) = nextAddr s"
  "currentHook (startRender (Some cur) w rl s) = currentHook s"
  "workInProgressHook (startRender (Some cur) w rl s) = workInProgressHook s"
  by (simp_all add: startRender_def Let_def)








section \<open>The hook list cursor\<close>

lemma hookList_path:
  "hookList H x xs \<longleftrightarrow> hookPath H x xs None"
  by (induction xs arbitrary: x) simp_all

lemma hookPath_append:
  "hookPath H x (as @ bs) z \<longleftrightarrow> (\<exists>y. hookPath H x as y \<and> hookPath H y bs z)"
  by (induction as arbitrary: x) simp_all

lemma hookPath_cong:
  assumes "\<forall>a\<in>set as. next_hook (H' a) = next_hook (H a)"
  shows "hookPath H' x as y = hookPath H x as y"
  using assms by (induction as arbitrary: x) auto

lemma hookList_cong:
  assumes "\<forall>a\<in>set as. next_hook (H' a) = next_hook (H a)"
  shows "hookList H' x as = hookList H x as"
  unfolding hookList_path by (rule hookPath_cong[OF assms])

lemma hookPath_hd:
  assumes "hookPath H x as y" and "as \<noteq> []"
  shows "x = Some (hd as)"
  using assms by (cases as) simp_all

lemma hookPath_last:
  assumes "hookPath H x as y" and "as \<noteq> []"
  shows "next_hook (H (last as)) = y"
  using assms
proof (induction as arbitrary: x)
  case Nil
  then show ?case by simp
next
  case (Cons a as)
  then show ?case by (cases "as = []") auto
qed

lemma hookPath_nth:
  assumes "hookPath H x as y" and "Suc i < length as"
  shows "next_hook (H (as ! i)) = Some (as ! Suc i)"
  using assms
proof (induction as arbitrary: x i)
  case Nil
  then show ?case by simp
next
  case (Cons a as)
  have rest: "hookPath H (next_hook (H a)) as y"
    using Cons.prems(1) by simp
  show ?case
  proof (cases i)
    case 0
    then have "as \<noteq> []" using Cons.prems(2) by auto
    from hookPath_hd[OF rest this] show ?thesis
      using 0 \<open>as \<noteq> []\<close> by (simp add: hd_conv_nth)
  next
    case (Suc j)
    then show ?thesis
      using Cons.IH[OF rest, of j] Cons.prems(2) by simp
  qed
qed

lemma hookList_unique:
  assumes "hookList H x as" and "hookList H x bs"
  shows "as = bs"
  using assms
proof (induction as arbitrary: x bs)
  case Nil
  then show ?case by (cases bs) simp_all
next
  case (Cons a as)
  then show ?case by (cases bs) auto
qed

lemma hookList_fresh_head:
  assumes "hookList H (next_hook (H a)) as"
  shows "a \<notin> set as"
proof
  assume "a \<in> set as"
  then obtain ys zs where split: "as = ys @ a # zs"
    by (auto simp: in_set_conv_decomp)
  have "hookPath H (next_hook (H a)) (ys @ a # zs) None"
    using assms by (simp add: hookList_path split)
  then have "hookList H (next_hook (H a)) zs"
    by (auto simp: hookPath_append hookList_path)
  then have "as = zs"
    using assms hookList_unique by blast
  then have "length as = length zs" by simp
  moreover have "length as = length ys + Suc (length zs)"
    by (subst split) simp
  ultimately show False by simp
qed

lemma hookList_distinct:
  assumes "hookList H x as"
  shows "distinct as"
  using assms
proof (induction as arbitrary: x)
  case Nil
  show ?case by simp
next
  case (Cons a as)
  then show ?case using hookList_fresh_head[of H a as] by auto
qed

lemma hookList_snoc:
  assumes l: "hookList H x as" and ne: "as \<noteq> []"
    and same: "\<forall>a\<in>set (butlast as). next_hook (H' a) = next_hook (H a)"
    and link: "next_hook (H' (last as)) = Some n"
    and fin: "next_hook (H' n) = None"
  shows "hookList H' x (as @ [n])"
proof -
  obtain bs b where as: "as = bs @ [b]"
    using ne by (metis rev_exhaust)
  have "hookPath H x (bs @ [b]) None"
    using l by (simp add: hookList_path as)
  then have "hookPath H x bs (Some b)"
    by (auto simp: hookPath_append)
  then have "hookPath H' x bs (Some b)"
    using hookPath_cong[of bs H' H x "Some b"] same by (simp add: as)
  moreover have "hookPath H' (Some b) [b, n] None"
    using link fin by (simp add: as)
  ultimately have "hookPath H' x (bs @ [b, n]) None"
    unfolding hookPath_append by blast
  then show ?thesis
    by (simp add: hookList_path as)
qed

lemma hook_next_idem:
  "(h\<lparr>next_hook := x\<rparr>)\<lparr>next_hook := y\<rparr> = h\<lparr>next_hook := y\<rparr>"
  by simp

lemma hookCalls_inv:
  assumes st: "passStart s f cur cs ws" and k: "k \<le> length cs"
  shows "\<exists>s'. hookCalls k s
           = (Inr (take k (ws @ [nextAddr s..<nextAddr s + (length cs - length ws)])), s')
     \<and> currentlyRenderingFiber s' = Some f
     \<and> fibers s' cur = fibers s cur \<and> fiber_alternate (fibers s' f) = Some cur
     \<and> currentHook s' = (if k = 0 then None else Some (cs ! (k - 1)))
     \<and> workInProgressHook s'
         = (if k = 0 then None
            else Some ((ws @ [nextAddr s..<nextAddr s + (length cs - length ws)]) ! (k - 1)))
     \<and> nextAddr s' = nextAddr s + (k - length ws)
     \<and> hookList (hooks s') (fiber_memoizedState (fibers s' f))
          (ws @ [nextAddr s..<nextAddr s + (k - length ws)])
     \<and> (\<forall>c\<in>set cs. hooks s' c = hooks s c)
     \<and> (\<forall>i. length ws \<le> i \<and> i < k \<longrightarrow>
           (hooks s' (nextAddr s + (i - length ws)))\<lparr>next_hook := None\<rparr>
             = (hooks s (cs ! i))\<lparr>next_hook := None\<rparr>)
     \<and> (\<forall>w\<in>set ws. (hooks s' w)\<lparr>next_hook := None\<rparr> = (hooks s w)\<lparr>next_hook := None\<rparr>)
     \<and> (k \<le> length ws \<longrightarrow> hooks s' = hooks s \<and> fibers s' = fibers s)"
  using k
proof (induction k)
  case 0
  have "currentlyRenderingFiber s = Some f" "fiber_alternate (fibers s f) = Some cur"
    "currentHook s = None" "workInProgressHook s = None"
    "hookList (hooks s) (fiber_memoizedState (fibers s f)) ws"
    using st by (simp_all add: passStart_def)
  then show ?case
    by (intro exI[of _ s]) simp
next
  case (Suc k)
  define m where "m = length ws"
  define n where "n = nextAddr s"
  define L where "L = ws @ [n..<n + (length cs - m)]"
  define W where "W = ws @ [n..<n + (k - m)]"
  define c where "c = cs ! k"
  have klt: "k < length cs" using Suc.prems by simp
  have crf0: "currentlyRenderingFiber s = Some f" and alt0: "fiber_alternate (fibers s f) = Some cur"
    and fc: "f \<noteq> cur"
    and lc: "hookList (hooks s) (fiber_memoizedState (fibers s cur)) cs"
    and mle: "m \<le> length cs" and disj: "set cs \<inter> set ws = {}"
    and old: "\<forall>a\<in>set (cs @ ws). a < n"
    using st by (simp_all add: passStart_def m_def n_def)
  obtain s' where run: "hookCalls k s = (Inr (take k L), s')"
    and crf: "currentlyRenderingFiber s' = Some f"
    and fcur: "fibers s' cur = fibers s cur" and alt: "fiber_alternate (fibers s' f) = Some cur"
    and ch: "currentHook s' = (if k = 0 then None else Some (cs ! (k - 1)))"
    and wh: "workInProgressHook s' = (if k = 0 then None else Some (L ! (k - 1)))"
    and na: "nextAddr s' = n + (k - m)"
    and lw: "hookList (hooks s') (fiber_memoizedState (fibers s' f)) W"
    and hcs: "\<forall>c\<in>set cs. hooks s' c = hooks s c"
    and hcl: "\<forall>i. m \<le> i \<and> i < k \<longrightarrow>
           (hooks s' (n + (i - m)))\<lparr>next_hook := None\<rparr> = (hooks s (cs ! i))\<lparr>next_hook := None\<rparr>"
    and hws: "\<forall>w\<in>set ws. (hooks s' w)\<lparr>next_hook := None\<rparr> = (hooks s w)\<lparr>next_hook := None\<rparr>"
    and hsame: "k \<le> m \<longrightarrow> hooks s' = hooks s \<and> fibers s' = fibers s"
    using Suc.IH klt unfolding m_def[symmetric] n_def[symmetric] L_def[symmetric] W_def[symmetric]
    by auto
  have oldc: "a < n" if "a \<in> set cs" for a using old that by simp
  have oldw: "a < n" if "a \<in> set ws" for a using old that by simp
  have lenL: "length L = length cs" using mle by (simp add: L_def m_def)
  have lenW: "length W = max m k" by (simp add: W_def m_def)
  have cin: "c \<in> set cs" using klt by (simp add: c_def)
  have cn: "c < n" "c \<notin> set ws" using cin oldc disj by auto
  have Wlt: "\<forall>a\<in>set W. a < nextAddr s'"
  proof
    fix a assume "a \<in> set W"
    then have "a \<in> set ws \<or> (n \<le> a \<and> a < n + (k - m))" by (auto simp: W_def)
    then have "a < n + (k - m) \<or> a < n" using oldw by blast
    then show "a < nextAddr s'" unfolding na by arith
  qed
  have Wc: "c \<notin> set W"
    using cn by (auto simp: W_def)
  have LW: "L ! i = W ! i" if "i < k" for i
  proof (cases "i < m")
    case True
    then show ?thesis by (simp add: L_def W_def nth_append m_def)
  next
    case False
    then have "i - m < k - m" "i - m < length cs - m" using that klt by simp_all
    then show ?thesis using False by (simp add: L_def W_def nth_append m_def)
  qed
  \<comment> \<open>the two candidates\<close>
  have lcs': "hookPath (hooks s') (fiber_memoizedState (fibers s' cur)) cs None"
    using lc hookPath_cong[of cs "hooks s'" "hooks s"] hcs
    by (simp add: hookList_path fcur)
  have nc: "nextCurrentHook s' = Inr (Some c)"
  proof (cases "k = 0")
    case True
    have "cs \<noteq> []" using klt by auto
    from hookPath_hd[OF lcs' this] show ?thesis
      using True \<open>cs \<noteq> []\<close> by (simp add: nextCurrentHook_def ch crf alt c_def hd_conv_nth)
  next
    case False
    then have "Suc (k - 1) < length cs" using klt by simp
    from hookPath_nth[OF lcs' this] show ?thesis
      using False by (simp add: nextCurrentHook_def ch c_def)
  qed
  have lw': "hookPath (hooks s') (fiber_memoizedState (fibers s' f)) W None"
    using lw by (simp add: hookList_path)
  have nw: "nextWorkInProgressHook s' = Inr (if k < m then Some (ws ! k) else None)"
  proof (cases "k = 0")
    case True
    show ?thesis
    proof (cases "W = []")
      case True
      have "fiber_memoizedState (fibers s' f) = None"
        using lw' unfolding True by simp
      moreover have "ws = []" using True by (simp add: W_def)
      then have "\<not> k < m" by (simp add: m_def)
      ultimately show ?thesis using \<open>k = 0\<close> by (simp add: nextWorkInProgressHook_def wh crf)
    next
      case False
      then have "ws \<noteq> []" using \<open>k = 0\<close> by (simp add: W_def)
      then have "k < m" "hd W = ws ! k" using \<open>k = 0\<close> by (simp_all add: m_def W_def hd_conv_nth)
      then show ?thesis
        using hookPath_hd[OF lw' False] \<open>k = 0\<close> by (simp add: nextWorkInProgressHook_def wh crf)
    qed
  next
    case False
    have w: "workInProgressHook s' = Some (W ! (k - 1))"
      using False wh LW[of "k - 1"] by simp
    show ?thesis
    proof (cases "k < m")
      case True
      then have "Suc (k - 1) < length W" using False by (simp add: lenW)
      from hookPath_nth[OF lw' this] have "next_hook (hooks s' (W ! (k - 1))) = Some (W ! k)"
        using False by simp
      moreover have "W ! k = ws ! k" using True by (simp add: W_def nth_append m_def)
      ultimately show ?thesis using True by (simp add: nextWorkInProgressHook_def w)
    next
      case False
      then have "length W = k" by (simp add: lenW)
      then have Wl: "W \<noteq> []" "last W = W ! (k - 1)"
        using \<open>k \<noteq> 0\<close> by (auto simp: last_conv_nth)
      from hookPath_last[OF lw' Wl(1)] show ?thesis
        using False Wl(2) by (simp add: nextWorkInProgressHook_def w)
    qed
  qed
  have takeS: "take (Suc k) L = take k L @ [L ! k]"
    using klt lenL by (simp add: take_Suc_conv_app_nth)
  show ?case
  proof (cases "k < m")
    case True
    define s'' where "s'' = s'\<lparr>workInProgressHook := Some (ws ! k), currentHook := Some c\<rparr>"
    have step: "updateWorkInProgressHook s' = (Inr (ws ! k), s'')"
      using True by (simp add: updateWorkInProgressHook_def nc nw s''_def)
    have Lk: "L ! k = ws ! k" using True by (simp add: L_def nth_append m_def)
    have run': "hookCalls (Suc k) s = (Inr (take (Suc k) L), s'')"
      by (simp add: run step takeS Lk)
    have z: "Suc k - m = 0" "k - m = 0" using True by simp_all
    have "\<forall>i. m \<le> i \<and> i < Suc k \<longrightarrow>
           (hooks s'' (n + (i - m)))\<lparr>next_hook := None\<rparr> = (hooks s (cs ! i))\<lparr>next_hook := None\<rparr>"
    proof (intro allI impI)
      fix i assume "m \<le> i \<and> i < Suc k"
      then have False using True by arith
      then show "(hooks s'' (n + (i - m)))\<lparr>next_hook := None\<rparr>
          = (hooks s (cs ! i))\<lparr>next_hook := None\<rparr>" ..
    qed
    then show ?thesis
      unfolding m_def[symmetric] n_def[symmetric] L_def[symmetric]
      using run' crf fcur alt na lw[unfolded W_def] hcs hws hsame True
      by (intro exI[of _ s'']) (simp add: s''_def z c_def Lk)
  next
    case False
    define n' where "n' = nextAddr s'"
    have n': "n' = n + (k - m)" by (simp add: n'_def na)
    have nw': "nextWorkInProgressHook s' = Inr None" using nw False by simp
    have lenWk: "length W = k" using False by (simp add: lenW)
    have cn': "c < nextAddr s'" using cn na by simp
    have wc: "workInProgressHook s' \<noteq> Some c"
    proof (cases "k = 0")
      case True then show ?thesis by (simp add: wh)
    next
      case F: False
      then have "W ! (k - 1) \<in> set W" using lenWk by simp
      then show ?thesis using Wc wh LW[of "k - 1"] F by auto
    qed
    have wlt: "\<forall>w. workInProgressHook s' = Some w \<longrightarrow> w < nextAddr s'"
    proof (cases "k = 0")
      case True then show ?thesis by (simp add: wh)
    next
      case F: False
      then have "W ! (k - 1) \<in> set W" using lenWk by simp
      then show ?thesis using Wlt wh LW[of "k - 1"] F by auto
    qed
    obtain H1 F1 where step: "updateWorkInProgressHook s' =
           (Inr n', s'\<lparr>currentHook := Some c, hooks := H1, nextAddr := Suc n',
               fibers := F1, workInProgressHook := Some n'\<rparr>)"
      and H1h: "H1 n' = (hooks s' c)\<lparr>next_hook := None\<rparr>"
      and H1c: "H1 c = hooks s' c"
      and H1x: "\<forall>x. x \<noteq> n' \<and> Some x \<noteq> workInProgressHook s' \<longrightarrow> H1 x = hooks s' x"
      and F1g: "\<forall>g. fiber_alternate (F1 g) = fiber_alternate (fibers s' g)
                \<and> fiber_lanes (F1 g) = fiber_lanes (fibers s' g)
                \<and> (g \<noteq> f \<longrightarrow> F1 g = fibers s' g)"
      and H1w: "\<forall>x. workInProgressHook s' = Some x \<longrightarrow> H1 x = (hooks s' x)\<lparr>next_hook := Some n'\<rparr>"
      and F1f: "fiber_memoizedState (F1 f)
          = (if workInProgressHook s' = None then Some n' else fiber_memoizedState (fibers s' f))"
      using updateWorkInProgressHook_clone[OF crf nw' nc cn' wc wlt]
      unfolding n'_def by blast
    define s'' where "s'' = s'\<lparr>currentHook := Some c, hooks := H1, nextAddr := Suc n',
               fibers := F1, workInProgressHook := Some n'\<rparr>"
    have Lk: "L ! k = n'"
    proof -
      have "k - m < length cs - m" using False klt by simp
      then show ?thesis using False by (simp add: L_def nth_append m_def n')
    qed
    have run': "hookCalls (Suc k) s = (Inr (take (Suc k) L), s'')"
      by (simp add: run step takeS Lk s''_def)
    \<comment> \<open>every hook but the last of the list keeps all its fields, the last its fields but \<open>next\<close>\<close>
    have keep: "(H1 a)\<lparr>next_hook := None\<rparr> = (hooks s' a)\<lparr>next_hook := None\<rparr>" if "a \<noteq> n'" for a
    proof (cases "workInProgressHook s' = Some a")
      case True
      then show ?thesis using H1w by simp
    next
      case False
      then show ?thesis using H1x that by simp
    qed
    have Wn: "n' \<notin> set W" using Wlt by (auto simp: n'_def)
    have Wapp: "W @ [n'] = ws @ [n..<n + (Suc k - m)]"
    proof -
      have "Suc k - m = Suc (k - m)" using False by simp
      then show ?thesis by (simp add: W_def n')
    qed
    have list': "hookList H1 (fiber_memoizedState (F1 f)) (W @ [n'])"
    proof (cases "k = 0")
      case True
      then have "W = []" using lenWk by simp
      moreover have "fiber_memoizedState (F1 f) = Some n'"
        using F1f True by (simp add: wh)
      ultimately show ?thesis by (simp add: H1h)
    next
      case F: False
      have Wne: "W \<noteq> []" using lenWk F by auto
      have lastW: "last W = W ! (k - 1)" using Wne lenWk by (simp add: last_conv_nth)
      have w: "workInProgressHook s' = Some (last W)"
        using wh F LW[of "k - 1"] lastW by simp
      have dW: "distinct W" using lw by (rule hookList_distinct)
      have same: "\<forall>a\<in>set (butlast W). next_hook (H1 a) = next_hook (hooks s' a)"
      proof
        fix a assume a: "a \<in> set (butlast W)"
        then have "a \<in> set W" by (rule in_set_butlastD)
        then have "a \<noteq> n'" using Wn by auto
        moreover have "a \<noteq> last W"
          using a dW Wne by (metis append_butlast_last_id distinct_append disjoint_iff
              list.set_intros(1))
        ultimately show "next_hook (H1 a) = next_hook (hooks s' a)"
          using H1x w by simp
      qed
      have link: "next_hook (H1 (last W)) = Some n'"
        using H1w w by simp
      have fin: "next_hook (H1 n') = None"
        by (simp add: H1h)
      have "fiber_memoizedState (F1 f) = fiber_memoizedState (fibers s' f)"
        using F1f w by simp
      then show ?thesis
        using hookList_snoc[OF lw Wne same link fin] by simp
    qed
    have hcs': "\<forall>c'\<in>set cs. H1 c' = hooks s c'"
    proof
      fix c' assume c': "c' \<in> set cs"
      then have "c' < n" "c' \<notin> set ws" using oldc disj by auto
      then have "c' \<noteq> n'" "c' \<notin> set W" by (auto simp: n' W_def)
      moreover have "\<forall>x. workInProgressHook s' = Some x \<longrightarrow> x \<in> set W"
      proof (cases "k = 0")
        case True then show ?thesis by (simp add: wh)
      next
        case F: False
        then have "W ! (k - 1) \<in> set W" using lenWk by simp
        then show ?thesis using wh LW[of "k - 1"] F by auto
      qed
      ultimately have "H1 c' = hooks s' c'"
        using H1x by (metis)
      then show "H1 c' = hooks s c'" using hcs c' by simp
    qed
    have hcl': "\<forall>i. m \<le> i \<and> i < Suc k \<longrightarrow>
           (H1 (n + (i - m)))\<lparr>next_hook := None\<rparr> = (hooks s (cs ! i))\<lparr>next_hook := None\<rparr>"
    proof (intro allI impI)
      fix i assume i: "m \<le> i \<and> i < Suc k"
      show "(H1 (n + (i - m)))\<lparr>next_hook := None\<rparr> = (hooks s (cs ! i))\<lparr>next_hook := None\<rparr>"
      proof (cases "i = k")
        case True
        have "hooks s' c = hooks s c" using hcs cin by simp
        then show ?thesis using True by (simp add: n'[symmetric] H1h c_def)
      next
        case False
        then have ik: "i < k" using i by simp
        then have "n + (i - m) \<noteq> n'" using i by (simp add: n')
        from keep[OF this] show ?thesis using hcl i ik by simp
      qed
    qed
    have hws': "\<forall>w\<in>set ws. (H1 w)\<lparr>next_hook := None\<rparr> = (hooks s w)\<lparr>next_hook := None\<rparr>"
    proof
      fix w assume w: "w \<in> set ws"
      then have "w \<noteq> n'" using oldw[of w] by (simp add: n')
      from keep[OF this] show "(H1 w)\<lparr>next_hook := None\<rparr> = (hooks s w)\<lparr>next_hook := None\<rparr>"
        using hws w by simp
    qed
    have F1cur: "F1 cur = fibers s cur" using F1g fc fcur by simp
    have F1alt: "fiber_alternate (F1 f) = Some cur" using F1g alt by simp
    have na': "Suc n' = n + (Suc k - m)" using False by (simp add: n')
    show ?thesis
      unfolding m_def[symmetric] n_def[symmetric] L_def[symmetric]
      using run' crf F1cur F1alt list'[unfolded Wapp] hcs' hcl' hws' False na'
      by (intro exI[of _ s'']) (simp add: s''_def c_def Lk)
  qed
qed

lemma hookCalls_error:
  assumes "fst (hookCalls k s) = Inl e" and "k \<le> j"
  shows "hookCalls j s = hookCalls k s"
  using assms(2)
proof (induction j)
  case 0
  then show ?case by simp
next
  case (Suc j)
  show ?case
  proof (cases "k = Suc j")
    case True
    then show ?thesis by simp
  next
    case False
    then have "hookCalls j s = hookCalls k s" using Suc by simp
    then show ?thesis
      using assms(1) by (cases "hookCalls k s") (auto split: sum.splits)
  qed
qed

text \<open>
  Claim C6. In an invocation of a component on an update, with \<open>cs\<close> the hooks of the
  committed fiber and \<open>ws\<close> the work-in-progress hooks that earlier passes made: the
  calls of \<open>updateWorkInProgressHook\<close> succeed as long as the committed list has a hook
  for the position, and the call after the last committed hook, and only that one, fails
  with "Rendered more hooks than during the previous render." The call at a position that
  has a work-in-progress hook returns that hook and allocates and changes nothing; the
  call at a later position returns a new hook, a copy of the committed hook at that
  position with \<open>next\<close> null, linked at the end of the work-in-progress list. Committed
  hooks are never changed.
\<close>
theorem updateWorkInProgressHook_call_sequence:
  assumes "passStart s f cur cs ws"
  shows "(\<forall>k\<le>length cs. \<exists>s'.
           hookCalls k s
             = (Inr (take k (ws @ [nextAddr s..<nextAddr s + (length cs - length ws)])), s')
         \<and> (k \<le> length ws \<longrightarrow> hooks s' = hooks s \<and> fibers s' = fibers s)
         \<and> nextAddr s' = nextAddr s + (k - length ws)
         \<and> hookList (hooks s') (fiber_memoizedState (fibers s' f))
              (ws @ [nextAddr s..<nextAddr s + (k - length ws)])
         \<and> (\<forall>i. length ws \<le> i \<and> i < k \<longrightarrow>
               (hooks s' (nextAddr s + (i - length ws)))\<lparr>next_hook := None\<rparr>
                 = (hooks s (cs ! i))\<lparr>next_hook := None\<rparr>)
         \<and> (\<forall>w\<in>set ws. (hooks s' w)\<lparr>next_hook := None\<rparr> = (hooks s w)\<lparr>next_hook := None\<rparr>)
         \<and> (\<forall>c\<in>set cs. hooks s' c = hooks s c)
         \<and> currentHook s' = (if k = 0 then None else Some (cs ! (k - 1)))
         \<and> workInProgressHook s'
             = (if k = 0 then None
                else Some ((ws @ [nextAddr s..<nextAddr s + (length cs - length ws)]) ! (k - 1))))
     \<and> (\<forall>k. fst (hookCalls k s) = Inl renderedMoreHooks \<longleftrightarrow> length cs < k)"
proof -
  define m where "m = length ws"
  define n where "n = nextAddr s"
  define K where "K = length cs"
  define L where "L = ws @ [n..<n + (K - m)]"
  have mle: "m \<le> K"
    using assms by (simp add: passStart_def m_def K_def)
  have lc: "hookList (hooks s) (fiber_memoizedState (fibers s cur)) cs"
    using assms by (simp add: passStart_def)
  have lenL: "length L = K" using mle by (simp add: L_def m_def)
  note I = hookCalls_inv[OF assms, folded m_def n_def K_def, folded L_def]
  have ok: "\<exists>s'. hookCalls k s = (Inr (take k L), s')" if "k \<le> K" for k
    using I[of k] that by blast
  \<comment> \<open>the call after the last committed hook\<close>
  obtain s' where run: "hookCalls K s = (Inr (take K L), s')"
    and crf: "currentlyRenderingFiber s' = Some f"
    and fcur: "fibers s' cur = fibers s cur" and alt: "fiber_alternate (fibers s' f) = Some cur"
    and ch: "currentHook s' = (if K = 0 then None else Some (cs ! (K - 1)))"
    and wh: "workInProgressHook s' = (if K = 0 then None else Some (L ! (K - 1)))"
    and lw: "hookList (hooks s') (fiber_memoizedState (fibers s' f)) (ws @ [n..<n + (K - m)])"
    and hcs: "\<forall>c\<in>set cs. hooks s' c = hooks s c"
    using I[of K] by blast
  have LW: "ws @ [n..<n + (K - m)] = L" by (simp add: L_def)
  have lcs': "hookPath (hooks s') (fiber_memoizedState (fibers s' cur)) cs None"
    using lc hookPath_cong[of cs "hooks s'" "hooks s"] hcs
    by (simp add: hookList_path fcur)
  have lw': "hookPath (hooks s') (fiber_memoizedState (fibers s' f)) L None"
    using lw by (simp add: hookList_path LW)
  have nc: "nextCurrentHook s' = Inr None"
  proof (cases "K = 0")
    case True
    then have "cs = []" by (simp add: K_def)
    then show ?thesis using lcs' True by (simp add: nextCurrentHook_def ch crf alt)
  next
    case False
    then have ne: "cs \<noteq> []" by (auto simp: K_def)
    have "last cs = cs ! (K - 1)" using ne by (simp add: last_conv_nth K_def)
    then show ?thesis
      using hookPath_last[OF lcs' ne] False by (simp add: nextCurrentHook_def ch)
  qed
  have nw: "nextWorkInProgressHook s' = Inr None"
  proof (cases "K = 0")
    case True
    then have "L = []" using lenL by simp
    then show ?thesis using lw' True by (simp add: nextWorkInProgressHook_def wh crf)
  next
    case False
    then have ne: "L \<noteq> []" using lenL by auto
    have "last L = L ! (K - 1)" using ne lenL by (simp add: last_conv_nth)
    then show ?thesis
      using hookPath_last[OF lw' ne] False by (simp add: nextWorkInProgressHook_def wh)
  qed
  have fail: "hookCalls (Suc K) s = (Inl renderedMoreHooks, s')"
    by (simp add: run updateWorkInProgressHook_def nc nw)
  have iff: "fst (hookCalls k s) = Inl renderedMoreHooks \<longleftrightarrow> K < k" for k
  proof (cases "k \<le> K")
    case True
    then show ?thesis using ok[of k] by auto
  next
    case False
    then have "Suc K \<le> k" by simp
    from hookCalls_error[OF _ this, of s renderedMoreHooks] show ?thesis
      using fail False by simp
  qed
  show ?thesis
    unfolding m_def[symmetric] n_def[symmetric] K_def[symmetric]
    unfolding L_def[symmetric]
  proof (intro conjI allI impI)
    fix k assume "k \<le> K"
    then show "\<exists>s'. hookCalls k s = (Inr (take k L), s')
         \<and> (k \<le> m \<longrightarrow> hooks s' = hooks s \<and> fibers s' = fibers s)
         \<and> nextAddr s' = n + (k - m)
         \<and> hookList (hooks s') (fiber_memoizedState (fibers s' f)) (ws @ [n..<n + (k - m)])
         \<and> (\<forall>i. m \<le> i \<and> i < k \<longrightarrow>
               (hooks s' (n + (i - m)))\<lparr>next_hook := None\<rparr> = (hooks s (cs ! i))\<lparr>next_hook := None\<rparr>)
         \<and> (\<forall>w\<in>set ws. (hooks s' w)\<lparr>next_hook := None\<rparr> = (hooks s w)\<lparr>next_hook := None\<rparr>)
         \<and> (\<forall>c\<in>set cs. hooks s' c = hooks s c)
         \<and> currentHook s' = (if k = 0 then None else Some (cs ! (k - 1)))
         \<and> workInProgressHook s' = (if k = 0 then None else Some (L ! (k - 1)))"
      using I[of k] by blast
  next
    fix k show "fst (hookCalls k s) = Inl renderedMoreHooks \<longleftrightarrow> K < k"
      by (rule iff)
  qed
qed

lemma exampleHookPassState_simps:
  "currentlyRenderingFiber exampleHookPassState = Some 0"
  "currentHook exampleHookPassState = None"
  "workInProgressHook exampleHookPassState = None"
  "nextAddr exampleHookPassState = 10"
  "fibers exampleHookPassState 0 = \<lparr>fiber_memoizedState = Some 8, fiber_updateQueue = None,
       fiber_lanes = 0, fiber_flags = 0, fiber_alternate = Some 2\<rparr>"
  "fibers exampleHookPassState 2 = \<lparr>fiber_memoizedState = Some 3, fiber_updateQueue = None,
       fiber_lanes = 0, fiber_flags = 0, fiber_alternate = Some 0\<rparr>"
  "hooks exampleHookPassState 3 = \<lparr>memoizedState = VNum 0, baseState = VNum 0, baseQueue = None,
       queue = Some 4, next_hook = Some 5\<rparr>"
  "hooks exampleHookPassState 5 = \<lparr>memoizedState = VStr ''a'', baseState = VNull,
       baseQueue = None, queue = None, next_hook = None\<rparr>"
  "hooks exampleHookPassState 8 = \<lparr>memoizedState = VNum 0, baseState = VNum 0, baseQueue = None,
       queue = Some 4, next_hook = None\<rparr>"
  "didScheduleRenderPhaseUpdate exampleHookPassState"
  "pending (queues exampleHookPassState 4) = Some 9"
  by (simp_all add: exampleHookPassState_def exampleHookCommitted_def initialState_def
      startRerender_def dispatchAction_def enqueueUpdate_def updateWorkInProgressHook_def
      nextCurrentHook_def nextWorkInProgressHook_def startRender_def Let_def NoLanes_def)

lemma exampleHookPassState_start:
  "passStart exampleHookPassState 0 2 [3, 5] [8]"
  by (simp add: passStart_def exampleHookPassState_simps)

text \<open>
  In the re-render pass of the example the first call returns the hook 8 that the first
  pass made, allocating nothing, the second makes the clone 10 of the committed hook 5,
  and the third fails.
\<close>
theorem updateWorkInProgressHook_call_sequence_witness:
  "passStart exampleHookPassState 0 2 [3, 5] [8]
   \<and> fst (hookCalls 1 exampleHookPassState) = Inr [8]
   \<and> hooks (snd (hookCalls 1 exampleHookPassState)) = hooks exampleHookPassState
   \<and> nextAddr (snd (hookCalls 1 exampleHookPassState)) = 10
   \<and> fst (hookCalls 2 exampleHookPassState) = Inr [8, 10]
   \<and> hookList (hooks (snd (hookCalls 2 exampleHookPassState)))
        (fiber_memoizedState (fibers (snd (hookCalls 2 exampleHookPassState)) 0)) [8, 10]
   \<and> (hooks (snd (hookCalls 2 exampleHookPassState)) 10)\<lparr>next_hook := None\<rparr>
        = hooks exampleHookPassState 5
   \<and> (hooks (snd (hookCalls 2 exampleHookPassState)) 8)\<lparr>next_hook := None\<rparr>
        = hooks exampleHookPassState 8
   \<and> fst (hookCalls 3 exampleHookPassState) = Inl renderedMoreHooks"
proof -
  note T = updateWorkInProgressHook_call_sequence[OF exampleHookPassState_start]
  have up: "[10..<10 + (2 - 1)] = [10::nat]" "[10..<10 + (1 - 1)] = ([]::nat list)"
    "[10..<10 + (length [3::nat, 5] - length [8::nat])] = [10::nat]"
    by (simp_all add: upt_rec)
  have one: "(1::nat) \<le> length [3::nat, 5]" and two: "(2::nat) \<le> length [3::nat, 5]"
    by simp_all
  obtain s1 where s1: "hookCalls 1 exampleHookPassState = (Inr [8], s1)"
    "hooks s1 = hooks exampleHookPassState" "nextAddr s1 = 10"
    using T[THEN conjunct1, rule_format, OF one]
    by (auto simp: exampleHookPassState_simps up)
  obtain s2 where s2: "hookCalls 2 exampleHookPassState = (Inr [8, 10], s2)"
    "hookList (hooks s2) (fiber_memoizedState (fibers s2 0)) [8, 10]"
    "(hooks s2 10)\<lparr>next_hook := None\<rparr> = (hooks exampleHookPassState 5)\<lparr>next_hook := None\<rparr>"
    "(hooks s2 8)\<lparr>next_hook := None\<rparr> = (hooks exampleHookPassState 8)\<lparr>next_hook := None\<rparr>"
  proof -
    obtain s2 where a: "hookCalls 2 exampleHookPassState
             = (Inr (take 2 ([8] @ [10..<10 + (length [3::nat, 5] - length [8::nat])])), s2)"
      and b: "hookList (hooks s2) (fiber_memoizedState (fibers s2 0))
              ([8] @ [10..<10 + (2 - length [8::nat])])"
      and c: "\<forall>i. length [8::nat] \<le> i \<and> i < 2 \<longrightarrow>
               (hooks s2 (10 + (i - length [8::nat])))\<lparr>next_hook := None\<rparr>
                 = (hooks exampleHookPassState ([3, 5] ! i))\<lparr>next_hook := None\<rparr>"
      and d: "\<forall>w\<in>set [8]. (hooks s2 w)\<lparr>next_hook := None\<rparr>
                 = (hooks exampleHookPassState w)\<lparr>next_hook := None\<rparr>"
      using T[THEN conjunct1, rule_format, OF two]
      unfolding exampleHookPassState_simps(4) by blast
    have "(hooks s2 10)\<lparr>next_hook := None\<rparr> = (hooks exampleHookPassState 5)\<lparr>next_hook := None\<rparr>"
      using c[rule_format, of 1] by simp
    then show ?thesis
      using that[of s2] a b d by (simp add: up)
  qed
  have three: "fst (hookCalls 3 exampleHookPassState) = Inl renderedMoreHooks"
    using T[THEN conjunct2, rule_format, of 3] by simp
  show ?thesis
    using s1 s2 three exampleHookPassState_start
    by (simp add: exampleHookPassState_simps)
qed

section \<open>Rolling back after a throw\<close>

lemma clearPendingQueues_refines:
  assumes "hookList (hooks s) x hs"
  shows "\<exists>Q. clearPendingQueues x s = Some (s\<lparr>queues := Q\<rparr>)
     \<and> (\<forall>h\<in>set hs. \<forall>q. queue (hooks s h) = Some q \<longrightarrow> pending (Q q) = None)
     \<and> (\<forall>q. Q q = queues s q \<or> Q q = (queues s q)\<lparr>pending := None\<rparr>)
     \<and> (\<forall>q. (\<forall>h\<in>set hs. queue (hooks s h) \<noteq> Some q) \<longrightarrow> Q q = queues s q)"
  using assms
proof (induction hs arbitrary: s x)
  case Nil
  have "clearPendingQueues x s = Some (s\<lparr>queues := queues s\<rparr>)"
    using Nil by (subst clearPendingQueues.simps) simp
  moreover have "\<forall>q. queues s q = queues s q \<or> queues s q = (queues s q)\<lparr>pending := None\<rparr>"
    by simp
  ultimately show ?case
    by (intro exI[of _ "queues s"] conjI) simp_all
next
  case (Cons h hs)
  have x: "x = Some h" and rest: "hookList (hooks s) (next_hook (hooks s h)) hs"
    using Cons.prems by simp_all
  define Q1 where "Q1 = (case queue (hooks s h) of
                     None \<Rightarrow> queues s
                   | Some q \<Rightarrow> (queues s)(q := (queues s q)\<lparr>pending := None\<rparr>))"
  define s1 where "s1 = s\<lparr>queues := Q1\<rparr>"
  have s1: "hooks s1 = hooks s" "queues s1 = Q1"
    by (simp_all add: s1_def)
  have s1eq: "(case queue (hooks s h) of
                     None \<Rightarrow> s
                   | Some q \<Rightarrow> s\<lparr>queues := (queues s)(q := (queues s q)\<lparr>pending := None\<rparr>)\<rparr>) = s1"
    by (simp add: s1_def Q1_def split: option.splits)
  have unf: "clearPendingQueues x s = clearPendingQueues (next_hook (hooks s h)) s1"
    unfolding x
    by (subst clearPendingQueues.simps) (simp add: Let_def s1eq s1)
  obtain Q where Q: "clearPendingQueues (next_hook (hooks s h)) s1 = Some (s1\<lparr>queues := Q\<rparr>)"
    and cleared: "\<forall>h\<in>set hs. \<forall>q. queue (hooks s1 h) = Some q \<longrightarrow> pending (Q q) = None"
    and shape: "\<forall>q. Q q = queues s1 q \<or> Q q = (queues s1 q)\<lparr>pending := None\<rparr>"
    and frame: "\<forall>q. (\<forall>h\<in>set hs. queue (hooks s1 h) \<noteq> Some q) \<longrightarrow> Q q = queues s1 q"
    using Cons.IH[of s1 "next_hook (hooks s h)"] rest by (auto simp: s1)
  have Q1shape: "Q1 q = queues s q \<or> Q1 q = (queues s q)\<lparr>pending := None\<rparr>" for q
    by (simp add: Q1_def split: option.splits)
  have Q1h: "pending (Q1 q) = None" if "queue (hooks s h) = Some q" for q
    using that by (simp add: Q1_def)
  have "clearPendingQueues x s = Some (s\<lparr>queues := Q\<rparr>)"
    using unf Q by (simp add: s1_def)
  moreover have "\<forall>h'\<in>set (h # hs). \<forall>q. queue (hooks s h') = Some q \<longrightarrow> pending (Q q) = None"
  proof (intro ballI allI impI)
    fix h' q assume h': "h' \<in> set (h # hs)" and q: "queue (hooks s h') = Some q"
    show "pending (Q q) = None"
    proof (cases "h' \<in> set hs")
      case True
      then show ?thesis using cleared q by (simp add: s1)
    next
      case False
      then have "h' = h" using h' by simp
      then have "pending (Q1 q) = None" using Q1h q by simp
      then show ?thesis
        using shape[rule_format, of q] by (auto simp: s1)
    qed
  qed
  moreover have "\<forall>q. Q q = queues s q \<or> Q q = (queues s q)\<lparr>pending := None\<rparr>"
  proof
    fix q
    show "Q q = queues s q \<or> Q q = (queues s q)\<lparr>pending := None\<rparr>"
      using shape[rule_format, of q] Q1shape[of q] by (auto simp: s1)
  qed
  moreover have "\<forall>q. (\<forall>h'\<in>set (h # hs). queue (hooks s h') \<noteq> Some q) \<longrightarrow> Q q = queues s q"
  proof (intro allI impI)
    fix q assume nq: "\<forall>h'\<in>set (h # hs). queue (hooks s h') \<noteq> Some q"
    then have "Q q = Q1 q" using frame by (simp add: s1)
    moreover have "Q1 q = queues s q"
      using nq by (simp add: Q1_def split: option.splits)
    ultimately show "Q q = queues s q" by simp
  qed
  ultimately show ?case by blast
qed

lemma resetHooksAfterThrow_refines:
  assumes "didScheduleRenderPhaseUpdate s"
    and "currentlyRenderingFiber s = Some f"
    and "hookList (hooks s) (fiber_memoizedState (fibers s f)) hs"
  shows "\<exists>s'. resetHooksAfterThrow s = Some (Inr (), s')
     \<and> (\<forall>h\<in>set hs. \<forall>q. queue (hooks s' h) = Some q \<longrightarrow> pending (queues s' q) = None)
     \<and> currentDispatcher s' = Some ContextOnlyDispatcher
     \<and> (\<forall>q. (\<forall>h\<in>set hs. queue (hooks s h) \<noteq> Some q) \<longrightarrow> queues s' q = queues s q)
     \<and> hooks s' = hooks s \<and> updates s' = updates s \<and> fibers s' = fibers s
     \<and> \<not> didScheduleRenderPhaseUpdate s'
     \<and> \<not> didScheduleRenderPhaseUpdateDuringThisPass s'
     \<and> currentlyRenderingFiber s' = None \<and> currentHook s' = None
     \<and> workInProgressHook s' = None \<and> renderLanes s' = NoLanes"
proof -
  define s1 where "s1 = s\<lparr>currentDispatcher := Some ContextOnlyDispatcher\<rparr>"
  have s1: "hooks s1 = hooks s" "fibers s1 = fibers s" "didScheduleRenderPhaseUpdate s1"
    "currentlyRenderingFiber s1 = Some f"
    using assms(1,2) by (simp_all add: s1_def)
  obtain Q where Q: "clearPendingQueues (fiber_memoizedState (fibers s1 f)) s1 = Some (s1\<lparr>queues := Q\<rparr>)"
    and cleared: "\<forall>h\<in>set hs. \<forall>q. queue (hooks s1 h) = Some q \<longrightarrow> pending (Q q) = None"
    and frame: "\<forall>q. (\<forall>h\<in>set hs. queue (hooks s1 h) \<noteq> Some q) \<longrightarrow> Q q = queues s1 q"
    using clearPendingQueues_refines[of s1 "fiber_memoizedState (fibers s1 f)" hs] assms(3)
    by (auto simp: s1)
  define s' where "s' = s1\<lparr>queues := Q, didScheduleRenderPhaseUpdate := False,
      renderLanes := NoLanes, currentlyRenderingFiber := None,
      currentHook := None, workInProgressHook := None,
      didScheduleRenderPhaseUpdateDuringThisPass := False\<rparr>"
  have Q': "clearPendingQueues (fiber_memoizedState (fibers s f)) s1 = Some (s1\<lparr>queues := Q\<rparr>)"
    using Q by (simp add: s1)
  have "resetHooksAfterThrow s = Some (Inr (), s')"
    unfolding resetHooksAfterThrow_def Let_def s1_def[symmetric]
    by (simp add: s1 Q' s'_def)
  moreover have "\<forall>h\<in>set hs. \<forall>q. queue (hooks s' h) = Some q \<longrightarrow> pending (queues s' q) = None"
    using cleared by (simp add: s'_def)
  moreover have "\<forall>q. (\<forall>h\<in>set hs. queue (hooks s h) \<noteq> Some q) \<longrightarrow> queues s' q = queues s q"
    using frame by (simp add: s'_def s1_def)
  ultimately show ?thesis
    by (intro exI[of _ s'] conjI) (simp_all add: s'_def s1_def)
qed

lemma abortedRender_refines:
  assumes ready: "reducerHookReady t f c q bs ps" and ne: "bs @ ps \<noteq> []"
    and wl: "hookList (hooks t) (fiber_memoizedState (fibers t f)) ws"
    and wcur: "workInProgressHook t = (if ws = [] then None else Some (last ws))"
    and wold: "\<forall>a\<in>set ws. a < nextAddr t" and cws: "c \<notin> set ws"
    and applied: "applyUpdates R reducer (baseState (hooks t c))
           (filter (\<lambda>u. isSubsetOfLanes (renderLanes t) (lane u))
              (contents (updates t) (bs @ ps))) = Some st'"
    and fib: "fiber = f \<or> fiber_alternate (fibers t fiber) = Some f"
  shows "\<exists>s1 s3. updateReducer R reducer t = Some (Inr (st', dispatch (queues t q)), s1)
     \<and> didScheduleRenderPhaseUpdate (dispatchAction R fiber q act l s1)
     \<and> pending (queues (dispatchAction R fiber q act l s1) q) = Some (nextAddr s1)
     \<and> hookList (hooks s1) (fiber_memoizedState (fibers s1 f)) (ws @ [nextAddr t])
     \<and> resetHooksAfterThrow (dispatchAction R fiber q act l s1) = Some (Inr (), s3)
     \<and> pending (queues s3 q) = None
     \<and> (\<forall>h\<in>set ws. \<forall>q'. queue (hooks t h) = Some q' \<longrightarrow> pending (queues s3 q') = None)
     \<and> (\<forall>q'. q' \<noteq> q \<and> (\<forall>h\<in>set ws. queue (hooks t h) \<noteq> Some q') \<longrightarrow> queues s3 q' = queues t q')
     \<and> hooks s3 = hooks s1
     \<and> (\<forall>g. g \<noteq> f \<longrightarrow> fibers s3 g = fibers t g)
     \<and> hooks s3 c = (hooks t c)\<lparr>baseQueue := Some (last (bs @ ps))\<rparr>
     \<and> (\<forall>x. x \<noteq> nextAddr t \<and> x \<noteq> c \<and> Some x \<noteq> workInProgressHook t \<longrightarrow> hooks s3 x = hooks t x)
     \<and> queueList (updates s3) (baseQueue (hooks s3 c)) (bs @ ps)
     \<and> contents (updates s3) (bs @ ps) = contents (updates t) (bs @ ps)
     \<and> (\<forall>a<nextAddr t. a \<notin> set (bs @ ps) \<longrightarrow> updates s3 a = updates t a)
     \<and> currentDispatcher s3 = Some ContextOnlyDispatcher
     \<and> \<not> didScheduleRenderPhaseUpdate s3
     \<and> \<not> didScheduleRenderPhaseUpdateDuringThisPass s3
     \<and> currentlyRenderingFiber s3 = None \<and> currentHook s3 = None
     \<and> workInProgressHook s3 = None \<and> renderLanes s3 = NoLanes"
proof -
  define h where "h = nextAddr t"
  define us where "us = bs @ ps"
  have crf: "currentlyRenderingFiber t = Some f"
    and wc: "workInProgressHook t \<noteq> Some c"
    and old: "\<forall>a\<in>set us. a < h"
    using ready by (simp_all add: reducerHookReady_def h_def us_def)
  obtain m where rb: "rebase R reducer (renderLanes t) (contents (updates t) (bs @ ps))
         (baseState (hooks t c), VNull, [])
         = Some (st', (if rebasedQueue (renderLanes t) (contents (updates t) (bs @ ps)) = []
                       then VNull else m),
                 rebasedQueue (renderLanes t) (contents (updates t) (bs @ ps)))"
    using rebase_spec[OF applied, of VNull] by blast
  define cl where "cl = rebasedQueue (renderLanes t) (contents (updates t) (bs @ ps))"
  obtain s1 where run: "updateReducer R reducer t = Some (Inr (st', dispatch (queues t q)), s1)"
    and crf1: "currentlyRenderingFiber s1 = Some f"
    and n1: "nextAddr s1 = Suc h + length cl"
    and hq: "queue (hooks s1 h) = Some q" and hn: "next_hook (hooks s1 h) = None"
    and hc: "hooks s1 c = (hooks t c)\<lparr>baseQueue := Some (last us)\<rparr>"
    and hx: "\<forall>x. x \<noteq> h \<and> x \<noteq> c \<and> Some x \<noteq> workInProgressHook t \<longrightarrow> hooks s1 x = hooks t x"
    and qs: "queues s1 = (queues t)(q := (queues t q)
          \<lparr>pending := None, lastRenderedReducer := Some reducer, lastRenderedState := st'\<rparr>)"
    and circ: "circularQueue (updates s1) (last us) us"
    and cont: "contents (updates s1) us = contents (updates t) us"
    and ux: "\<forall>a<h. a \<notin> set us \<longrightarrow> updates s1 a = updates t a"
    and fa: "\<forall>g. fiber_alternate (fibers s1 g) = fiber_alternate (fibers t g)
            \<and> (g \<noteq> f \<longrightarrow> fibers s1 g = fibers t g)"
    and hw: "\<forall>x. workInProgressHook t = Some x \<longrightarrow> hooks s1 x = (hooks t x)\<lparr>next_hook := Some h\<rparr>"
    and fm: "fiber_memoizedState (fibers s1 f)
          = (if workInProgressHook t = None then Some h else fiber_memoizedState (fibers t f))"
  proof -
    from updateReducer_refines[OF ready ne rb, folded cl_def h_def us_def]
    obtain s1 where a: "updateReducer R reducer t = Some (Inr (st', dispatch (queues t q)), s1)"
      and b: "currentlyRenderingFiber s1 = Some f" "nextAddr s1 = Suc h + length cl"
      and c: "hooks s1 h = \<lparr>memoizedState = st', baseState = (if cl = [] then st' else m),
           baseQueue = (if cl = [] then None else Some (h + length cl)),
           queue = Some q, next_hook = None\<rparr>"
      and d: "hooks s1 c = (hooks t c)\<lparr>baseQueue := Some (last us)\<rparr>"
        "\<forall>x. x \<noteq> h \<and> x \<noteq> c \<and> Some x \<noteq> workInProgressHook t \<longrightarrow> hooks s1 x = hooks t x"
        "queues s1 = (queues t)(q := (queues t q)
          \<lparr>pending := None, lastRenderedReducer := Some reducer, lastRenderedState := st'\<rparr>)"
        "circularQueue (updates s1) (last us) us"
        "contents (updates s1) us = contents (updates t) us"
        "\<forall>a<h. a \<notin> set us \<longrightarrow> updates s1 a = updates t a"
        "\<forall>g. fiber_alternate (fibers s1 g) = fiber_alternate (fibers t g)
            \<and> (g \<noteq> f \<longrightarrow> fibers s1 g = fibers t g)"
        "\<forall>x. workInProgressHook t = Some x \<longrightarrow> hooks s1 x = (hooks t x)\<lparr>next_hook := Some h\<rparr>"
        "fiber_memoizedState (fibers s1 f)
          = (if workInProgressHook t = None then Some h else fiber_memoizedState (fibers t f))"
      by (auto split: if_splits)
    show ?thesis
      using that[OF a b _ _ d] c by simp
  qed
  \<comment> \<open>the work-in-progress list after the hook was processed\<close>
  have wh: "a \<noteq> h" "a \<noteq> c" if "a \<in> set ws" for a
    using that wold cws by (auto simp: h_def)
  have list1: "hookList (hooks s1) (fiber_memoizedState (fibers s1 f)) (ws @ [h])"
  proof (cases "ws = []")
    case True
    then show ?thesis using fm wcur hn by simp
  next
    case False
    have w: "workInProgressHook t = Some (last ws)" using wcur False by simp
    have dW: "distinct ws" using wl by (rule hookList_distinct)
    have same: "\<forall>a\<in>set (butlast ws). next_hook (hooks s1 a) = next_hook (hooks t a)"
    proof
      fix a assume a: "a \<in> set (butlast ws)"
      then have in_ws: "a \<in> set ws" by (rule in_set_butlastD)
      have "a \<noteq> last ws"
        using a dW False by (metis append_butlast_last_id distinct_append disjoint_iff
            list.set_intros(1))
      then show "next_hook (hooks s1 a) = next_hook (hooks t a)"
        using hx wh[OF in_ws] w by simp
    qed
    have link: "next_hook (hooks s1 (last ws)) = Some h" using hw w by simp
    have "fiber_memoizedState (fibers s1 f) = fiber_memoizedState (fibers t f)"
      using fm w by simp
    then show ?thesis
      using hookList_snoc[OF wl False same link hn] by simp
  qed
  have wq: "queue (hooks s1 a) = queue (hooks t a)" if "a \<in> set ws" for a
  proof (cases "workInProgressHook t = Some a")
    case True
    then show ?thesis using hw by simp
  next
    case False
    then show ?thesis using hx wh[OF that] by simp
  qed
  \<comment> \<open>the render-phase update\<close>
  define s2 where "s2 = dispatchAction R fiber q act l s1"
  have fib1: "fiber = f \<or> fiber_alternate (fibers s1 fiber) = Some f"
    using fib fa by simp
  have p1: "queueList (updates s1) (pending (queues s1 q)) []"
    by (simp add: qs queueList_Nil)
  obtain U where enq: "enqueueUpdate q act l s1 =
           s1\<lparr>updates := U, nextAddr := Suc (nextAddr s1),
             queues := (queues s1)(q := (queues s1 q)\<lparr>pending := Some (nextAddr s1)\<rparr>)\<rparr>"
    and frame: "\<forall>a. a \<noteq> nextAddr s1 \<and> a \<notin> set [] \<longrightarrow> U a = updates s1 a"
    using enqueueUpdate_refines[OF p1, of act l] by auto
  have s2: "s2 = s1\<lparr>updates := U, nextAddr := Suc (nextAddr s1),
             queues := (queues s1)(q := (queues s1 q)\<lparr>pending := Some (nextAddr s1)\<rparr>),
             didScheduleRenderPhaseUpdateDuringThisPass := True,
             didScheduleRenderPhaseUpdate := True\<rparr>"
    unfolding s2_def dispatchAction_render_phase[OF crf1 fib1] enq by simp
  have f2: "hooks s2 = hooks s1" "fibers s2 = fibers s1" "updates s2 = U"
    "currentlyRenderingFiber s2 = Some f" "didScheduleRenderPhaseUpdate s2"
    "queues s2 = (queues s1)(q := (queues s1 q)\<lparr>pending := Some (nextAddr s1)\<rparr>)"
    using crf1 by (simp_all add: s2)
  have list2: "hookList (hooks s2) (fiber_memoizedState (fibers s2 f)) (ws @ [h])"
    using list1 by (simp add: f2)
  \<comment> \<open>the reset\<close>
  obtain s3 where reset: "resetHooksAfterThrow s2 = Some (Inr (), s3)"
    and cleared: "\<forall>x\<in>set (ws @ [h]). \<forall>q'. queue (hooks s3 x) = Some q' \<longrightarrow> pending (queues s3 q') = None"
    and disp: "currentDispatcher s3 = Some ContextOnlyDispatcher"
    and others: "\<forall>q'. (\<forall>x\<in>set (ws @ [h]). queue (hooks s2 x) \<noteq> Some q') \<longrightarrow> queues s3 q' = queues s2 q'"
    and h3: "hooks s3 = hooks s2" and u3: "updates s3 = updates s2"
    and fb3: "fibers s3 = fibers s2"
    and rest: "\<not> didScheduleRenderPhaseUpdate s3"
      "\<not> didScheduleRenderPhaseUpdateDuringThisPass s3"
      "currentlyRenderingFiber s3 = None" "currentHook s3 = None"
      "workInProgressHook s3 = None" "renderLanes s3 = NoLanes"
    using resetHooksAfterThrow_refines[OF f2(5) f2(4) list2] by blast
  have uslt: "\<forall>a\<in>set us. a \<noteq> nextAddr s1"
    using old n1 by auto
  have agree: "\<forall>a\<in>set us. updates s3 a = updates s1 a"
    using frame uslt by (simp add: u3 f2)
  have "pending (queues s3 q) = None"
    using cleared hq by (simp add: h3 f2)
  moreover have "\<forall>x\<in>set ws. \<forall>q'. queue (hooks t x) = Some q' \<longrightarrow> pending (queues s3 q') = None"
    using cleared wq by (simp add: h3 f2)
  moreover have "\<forall>q'. q' \<noteq> q \<and> (\<forall>x\<in>set ws. queue (hooks t x) \<noteq> Some q')
      \<longrightarrow> queues s3 q' = queues t q'"
  proof (intro allI impI)
    fix q' assume q': "q' \<noteq> q \<and> (\<forall>x\<in>set ws. queue (hooks t x) \<noteq> Some q')"
    then have "\<forall>x\<in>set (ws @ [h]). queue (hooks s2 x) \<noteq> Some q'"
      using wq hq by (auto simp: f2)
    then have "queues s3 q' = queues s2 q'" using others by simp
    then show "queues s3 q' = queues t q'" using q' by (simp add: f2 qs)
  qed
  moreover have "queueList (updates s3) (baseQueue (hooks s3 c)) us"
    using circ circularQueue_cong[OF agree] by (simp add: h3 f2 hc queueList_def)
  moreover have "contents (updates s3) us = contents (updates t) us"
    using cont contents_cong[OF agree] by simp
  moreover have "pending (queues s2 q) = Some (nextAddr s1)"
    by (simp add: f2)
  moreover have "\<forall>a<h. a \<notin> set us \<longrightarrow> updates s3 a = updates t a"
  proof (intro allI impI)
    fix a assume a: "a < h" "a \<notin> set us"
    then have "a \<noteq> nextAddr s1" using n1 by simp
    then have "updates s3 a = updates s1 a" using frame by (simp add: u3 f2)
    then show "updates s3 a = updates t a" using ux a by simp
  qed
  moreover have "\<forall>g. g \<noteq> f \<longrightarrow> fibers s3 g = fibers t g"
    using fa by (simp add: fb3 f2)
  moreover have "hooks s3 c = (hooks t c)\<lparr>baseQueue := Some (last us)\<rparr>"
    "\<forall>x. x \<noteq> h \<and> x \<noteq> c \<and> Some x \<noteq> workInProgressHook t \<longrightarrow> hooks s3 x = hooks t x"
    "hooks s3 = hooks s1"
    using hc hx by (simp_all add: h3 f2)
  ultimately show ?thesis
    using run f2(5) list1 reset disp rest
    unfolding h_def us_def s2_def
    by (intro exI[of _ s1] exI[of _ s3] conjI)
qed

text \<open>
  Claim C10, as amended. A render reaches a reducer hook whose base queue and pending queue
  hold the updates \<open>bs\<close> and \<open>ps\<close>, processes it with \<open>updateReducer\<close>, then a render-phase
  update is dispatched on its queue and the render throws. After \<open>resetHooksAfterThrow\<close>
  the pending list is empty on the queue of that hook and of every hook the render had
  reached before (the work-in-progress list \<open>ws\<close>), which drops the render-phase update;
  every other queue is as it was before the hook was processed, so a hook the render had
  not reached keeps its pending updates; and the updates \<open>bs\<close> and \<open>ps\<close>, enqueued before
  the render, are not removed: they are the base queue of the committed hook, with their
  contents. The dispatcher is the \<open>ContextOnly\<close> table and the render state is cleared.
\<close>
theorem resetHooksAfterThrow_aborted_render:
  assumes "reducerHookReady t f c q bs ps" and "bs @ ps \<noteq> []"
    and "hookList (hooks t) (fiber_memoizedState (fibers t f)) ws"
    and "workInProgressHook t = (if ws = [] then None else Some (last ws))"
    and "\<forall>a\<in>set ws. a < nextAddr t" and "c \<notin> set ws"
    and "applyUpdates R reducer (baseState (hooks t c))
           (filter (\<lambda>u. isSubsetOfLanes (renderLanes t) (lane u))
              (contents (updates t) (bs @ ps))) = Some st'"
    and "fiber = f \<or> fiber_alternate (fibers t fiber) = Some f"
  shows "\<exists>s1 s3. updateReducer R reducer t = Some (Inr (st', dispatch (queues t q)), s1)
     \<and> didScheduleRenderPhaseUpdate (dispatchAction R fiber q act l s1)
     \<and> pending (queues (dispatchAction R fiber q act l s1) q) = Some (nextAddr s1)
     \<and> hookList (hooks s1) (fiber_memoizedState (fibers s1 f)) (ws @ [nextAddr t])
     \<and> resetHooksAfterThrow (dispatchAction R fiber q act l s1) = Some (Inr (), s3)
     \<and> pending (queues s3 q) = None
     \<and> (\<forall>h\<in>set ws. \<forall>q'. queue (hooks t h) = Some q' \<longrightarrow> pending (queues s3 q') = None)
     \<and> (\<forall>q'. q' \<noteq> q \<and> (\<forall>h\<in>set ws. queue (hooks t h) \<noteq> Some q') \<longrightarrow> queues s3 q' = queues t q')
     \<and> queueList (updates s3) (baseQueue (hooks s3 c)) (bs @ ps)
     \<and> contents (updates s3) (bs @ ps) = contents (updates t) (bs @ ps)
     \<and> (\<forall>x. x \<noteq> nextAddr t \<and> x \<noteq> c \<and> Some x \<noteq> workInProgressHook t \<longrightarrow> hooks s3 x = hooks t x)
     \<and> currentDispatcher s3 = Some ContextOnlyDispatcher
     \<and> \<not> didScheduleRenderPhaseUpdate s3
     \<and> \<not> didScheduleRenderPhaseUpdateDuringThisPass s3
     \<and> currentlyRenderingFiber s3 = None \<and> currentHook s3 = None
     \<and> workInProgressHook s3 = None \<and> renderLanes s3 = NoLanes"
proof -
  from abortedRender_refines[OF assms, of act l]
  obtain s1 s3 where "updateReducer R reducer t = Some (Inr (st', dispatch (queues t q)), s1)"
    "didScheduleRenderPhaseUpdate (dispatchAction R fiber q act l s1)"
    "pending (queues (dispatchAction R fiber q act l s1) q) = Some (nextAddr s1)"
    "hookList (hooks s1) (fiber_memoizedState (fibers s1 f)) (ws @ [nextAddr t])"
    "resetHooksAfterThrow (dispatchAction R fiber q act l s1) = Some (Inr (), s3)"
    "pending (queues s3 q) = None"
    "\<forall>h\<in>set ws. \<forall>q'. queue (hooks t h) = Some q' \<longrightarrow> pending (queues s3 q') = None"
    "\<forall>q'. q' \<noteq> q \<and> (\<forall>h\<in>set ws. queue (hooks t h) \<noteq> Some q') \<longrightarrow> queues s3 q' = queues t q'"
    "queueList (updates s3) (baseQueue (hooks s3 c)) (bs @ ps)"
    "contents (updates s3) (bs @ ps) = contents (updates t) (bs @ ps)"
    "\<forall>x. x \<noteq> nextAddr t \<and> x \<noteq> c \<and> Some x \<noteq> workInProgressHook t \<longrightarrow> hooks s3 x = hooks t x"
    "currentDispatcher s3 = Some ContextOnlyDispatcher"
    "\<not> didScheduleRenderPhaseUpdate s3"
    "\<not> didScheduleRenderPhaseUpdateDuringThisPass s3"
    "currentlyRenderingFiber s3 = None" "currentHook s3 = None"
    "workInProgressHook s3 = None" "renderLanes s3 = NoLanes"
    by blast
  then show ?thesis
    by (intro exI[of _ s1] exI[of _ s3] conjI)
qed

lemma exampleTwoHookState_simps:
  "updates exampleTwoHookState 5 = \<lparr>lane = 1, action = VNum 1, eagerReducer = None,
       eagerState = VNull, next_update = Some 6\<rparr>"
  "updates exampleTwoHookState 6 = \<lparr>lane = 2, action = VNum 10, eagerReducer = None,
       eagerState = VNull, next_update = Some 7\<rparr>"
  "updates exampleTwoHookState 7 = \<lparr>lane = 1, action = VNum 100, eagerReducer = None,
       eagerState = VNull, next_update = Some 5\<rparr>"
  "updates exampleTwoHookState 12 = \<lparr>lane = 1, action = VNum 1000, eagerReducer = None,
       eagerState = VNull, next_update = Some 12\<rparr>"
  "queues exampleTwoHookState 4 = \<lparr>pending = Some 7, dispatch = Some (2, 4),
       lastRenderedReducer = Some 0, lastRenderedState = VNum 0\<rparr>"
  "queues exampleTwoHookState 9 = \<lparr>pending = Some 12, dispatch = Some (2, 9),
       lastRenderedReducer = Some 0, lastRenderedState = VNum 0\<rparr>"
  "hooks exampleTwoHookState 3 = \<lparr>memoizedState = VNum 0, baseState = VNum 0, baseQueue = None,
       queue = Some 4, next_hook = Some 8\<rparr>"
  "hooks exampleTwoHookState 8 = \<lparr>memoizedState = VNum 0, baseState = VNum 0, baseQueue = None,
       queue = Some 9, next_hook = None\<rparr>"
  "fibers exampleTwoHookState 0 = \<lparr>fiber_memoizedState = None, fiber_updateQueue = None,
       fiber_lanes = 3, fiber_flags = 0, fiber_alternate = Some 2\<rparr>"
  "fibers exampleTwoHookState 2 = \<lparr>fiber_memoizedState = Some 3, fiber_updateQueue = None,
       fiber_lanes = 3, fiber_flags = 0, fiber_alternate = Some 0\<rparr>"
  "nextAddr exampleTwoHookState = 20"
  "currentHook exampleTwoHookState = None"
  "workInProgressHook exampleTwoHookState = None"
  by (simp_all add: exampleTwoHookState_def initialState_def)

lemma exampleTwoHookRender_simps:
  "updates exampleTwoHookRender = updates exampleTwoHookState"
  "queues exampleTwoHookRender = queues exampleTwoHookState"
  "hooks exampleTwoHookRender = hooks exampleTwoHookState"
  "fibers exampleTwoHookRender 2 = fibers exampleTwoHookState 2"
  "fiber_memoizedState (fibers exampleTwoHookRender 0) = None"
  "fiber_alternate (fibers exampleTwoHookRender 0) = Some 2"
  "nextAddr exampleTwoHookRender = 20"
  "renderLanes exampleTwoHookRender = 1"
  "currentlyRenderingFiber exampleTwoHookRender = Some 0"
  "currentHook exampleTwoHookRender = None"
  "workInProgressHook exampleTwoHookRender = None"
  by (simp_all add: exampleTwoHookRender_def startRender_simps exampleTwoHookState_simps)

lemma exampleTwoHookRender_ready:
  "reducerHookReady exampleTwoHookRender 0 3 4 [] [5, 6, 7]"
  by (simp add: reducerHookReady_def exampleTwoHookRender_simps exampleTwoHookState_simps
        nextWorkInProgressHook_def nextCurrentHook_def queueList_def circularQueue_def)

lemma exampleTwoHookRender_applied:
  "applyUpdates sumReducers 0 (baseState (hooks exampleTwoHookRender 3))
     (filter (\<lambda>u. isSubsetOfLanes (renderLanes exampleTwoHookRender) (lane u))
        (contents (updates exampleTwoHookRender) ([] @ [5, 6, 7]))) = Some (VNum 101)"
  by (simp add: contents_def detach_def exampleTwoHookRender_simps exampleTwoHookState_simps
        example_lanes sumReducers_def)

lemma exampleTwoHookRender_list:
  "hookList (hooks exampleTwoHookRender) (fiber_memoizedState (fibers exampleTwoHookRender 0)) []"
  "workInProgressHook exampleTwoHookRender = (if ([]::nat list) = [] then None else Some (last []))"
  "\<forall>a\<in>set []. a < nextAddr exampleTwoHookRender" "3 \<notin> set ([]::nat list)"
  "([] @ [5, 6, 7::nat]) \<noteq> []"
  "(2::nat) = 0 \<or> fiber_alternate (fibers exampleTwoHookRender 2) = Some 0"
  by (simp_all add: exampleTwoHookRender_simps exampleTwoHookState_simps)

text \<open>
  On the example with two hooks: the render processes hook 3, dispatches on its queue 4
  and throws.
\<close>
theorem resetHooksAfterThrow_aborted_render_witness:
  "reducerHookReady exampleTwoHookRender 0 3 4 [] [5, 6, 7]
   \<and> pending (queues exampleTwoHookRender 4) = Some 7
   \<and> (\<exists>s1 s3. updateReducer sumReducers 0 exampleTwoHookRender
                 = Some (Inr (VNum 101, Some (2, 4)), s1)
         \<and> didScheduleRenderPhaseUpdate (dispatchAction sumReducers 2 4 (VNum 1) 1 s1)
         \<and> pending (queues (dispatchAction sumReducers 2 4 (VNum 1) 1 s1) 4) = Some (nextAddr s1)
         \<and> resetHooksAfterThrow (dispatchAction sumReducers 2 4 (VNum 1) 1 s1) = Some (Inr (), s3)
         \<and> pending (queues s3 4) = None
         \<and> queues s3 9 = queues exampleTwoHookRender 9
         \<and> queueList (updates s3) (baseQueue (hooks s3 3)) [5, 6, 7]
         \<and> contents (updates s3) [5, 6, 7] = contents (updates exampleTwoHookRender) [5, 6, 7]
         \<and> currentDispatcher s3 = Some ContextOnlyDispatcher)"
proof -
  note T = resetHooksAfterThrow_aborted_render[OF exampleTwoHookRender_ready
      exampleTwoHookRender_list(5,1,2,3,4) exampleTwoHookRender_applied
      exampleTwoHookRender_list(6), of "VNum 1" 1]
  obtain s1 s3 where a: "updateReducer sumReducers 0 exampleTwoHookRender
                 = Some (Inr (VNum 101, dispatch (queues exampleTwoHookRender 4)), s1)"
    "didScheduleRenderPhaseUpdate (dispatchAction sumReducers 2 4 (VNum 1) 1 s1)"
    "pending (queues (dispatchAction sumReducers 2 4 (VNum 1) 1 s1) 4) = Some (nextAddr s1)"
    "resetHooksAfterThrow (dispatchAction sumReducers 2 4 (VNum 1) 1 s1) = Some (Inr (), s3)"
    "pending (queues s3 4) = None"
    and fr: "\<forall>q'. q' \<noteq> 4 \<and> (\<forall>h\<in>set []. queue (hooks exampleTwoHookRender h) \<noteq> Some q')
         \<longrightarrow> queues s3 q' = queues exampleTwoHookRender q'"
    and b: "queueList (updates s3) (baseQueue (hooks s3 3)) ([] @ [5, 6, 7])"
    "contents (updates s3) ([] @ [5, 6, 7]) = contents (updates exampleTwoHookRender) ([] @ [5, 6, 7])"
    "currentDispatcher s3 = Some ContextOnlyDispatcher"
    using T by blast
  have "queues s3 9 = queues exampleTwoHookRender 9"
    using fr by simp
  then have "updateReducer sumReducers 0 exampleTwoHookRender
                 = Some (Inr (VNum 101, Some (2, 4)), s1)
         \<and> didScheduleRenderPhaseUpdate (dispatchAction sumReducers 2 4 (VNum 1) 1 s1)
         \<and> pending (queues (dispatchAction sumReducers 2 4 (VNum 1) 1 s1) 4) = Some (nextAddr s1)
         \<and> resetHooksAfterThrow (dispatchAction sumReducers 2 4 (VNum 1) 1 s1) = Some (Inr (), s3)
         \<and> pending (queues s3 4) = None
         \<and> queues s3 9 = queues exampleTwoHookRender 9
         \<and> queueList (updates s3) (baseQueue (hooks s3 3)) [5, 6, 7]
         \<and> contents (updates s3) [5, 6, 7] = contents (updates exampleTwoHookRender) [5, 6, 7]
         \<and> currentDispatcher s3 = Some ContextOnlyDispatcher"
    using a b by (simp add: exampleTwoHookRender_simps exampleTwoHookState_simps)
  then show ?thesis
    using exampleTwoHookRender_ready
    by (auto simp: exampleTwoHookRender_simps exampleTwoHookState_simps)
qed

text \<open>
  The claim as stated (every hook queue of the aborted fiber has an empty pending list,
  updates enqueued before the render included) fails on the same run: hook 8 of the
  component had not been reached when the render threw, and its queue 9 still has the
  update 12 pending, untouched; and the updates 5, 6, 7 that were pending on queue 4
  before the render are not dropped either, they are the base queue of the committed hook 3.
\<close>
theorem resetHooksAfterThrow_keeps_pending_counterexample:
  "hookList (hooks exampleTwoHookState) (fiber_memoizedState (fibers exampleTwoHookState 2)) [3, 8]
   \<and> queue (hooks exampleTwoHookState 8) = Some 9
   \<and> pending (queues exampleTwoHookState 9) = Some 12
   \<and> pending (queues exampleTwoHookState 4) = Some 7
   \<and> (\<exists>s1 s3. updateReducer sumReducers 0 (startRender (Some 2) 0 1 exampleTwoHookState)
                 = Some (Inr (VNum 101, Some (2, 4)), s1)
         \<and> didScheduleRenderPhaseUpdate (dispatchAction sumReducers 2 4 (VNum 1) 1 s1)
         \<and> resetHooksAfterThrow (dispatchAction sumReducers 2 4 (VNum 1) 1 s1) = Some (Inr (), s3)
         \<and> hookList (hooks s3) (fiber_memoizedState (fibers s3 2)) [3, 8]
         \<and> queue (hooks s3 8) = Some 9
         \<and> pending (queues s3 9) = Some 12
         \<and> updates s3 12 = updates exampleTwoHookState 12
         \<and> queueList (updates s3) (baseQueue (hooks s3 3)) [5, 6, 7]
         \<and> contents (updates s3) [5, 6, 7] = contents (updates exampleTwoHookState) [5, 6, 7])"
proof -
  note T = abortedRender_refines[OF exampleTwoHookRender_ready
      exampleTwoHookRender_list(5,1,2,3,4) exampleTwoHookRender_applied
      exampleTwoHookRender_list(6), of "VNum 1" 1]
  obtain s1 s3 where a: "updateReducer sumReducers 0 exampleTwoHookRender
                 = Some (Inr (VNum 101, dispatch (queues exampleTwoHookRender 4)), s1)"
    "didScheduleRenderPhaseUpdate (dispatchAction sumReducers 2 4 (VNum 1) 1 s1)"
    "resetHooksAfterThrow (dispatchAction sumReducers 2 4 (VNum 1) 1 s1) = Some (Inr (), s3)"
    and fr: "\<forall>q'. q' \<noteq> 4 \<and> (\<forall>h\<in>set []. queue (hooks exampleTwoHookRender h) \<noteq> Some q')
         \<longrightarrow> queues s3 q' = queues exampleTwoHookRender q'"
    and fb: "\<forall>g. g \<noteq> 0 \<longrightarrow> fibers s3 g = fibers exampleTwoHookRender g"
    and h3: "hooks s3 3 = (hooks exampleTwoHookRender 3)\<lparr>baseQueue := Some (last ([] @ [5, 6, 7]))\<rparr>"
    and hx: "\<forall>x. x \<noteq> nextAddr exampleTwoHookRender \<and> x \<noteq> 3
          \<and> Some x \<noteq> workInProgressHook exampleTwoHookRender
          \<longrightarrow> hooks s3 x = hooks exampleTwoHookRender x"
    and b: "queueList (updates s3) (baseQueue (hooks s3 3)) ([] @ [5, 6, 7])"
    "contents (updates s3) ([] @ [5, 6, 7]) = contents (updates exampleTwoHookRender) ([] @ [5, 6, 7])"
    and ux: "\<forall>a<nextAddr exampleTwoHookRender. a \<notin> set ([] @ [5, 6, 7])
         \<longrightarrow> updates s3 a = updates exampleTwoHookRender a"
    using T by blast
  have u12: "updates s3 12 = updates exampleTwoHookState 12"
    using ux[rule_format, of 12] by (simp add: exampleTwoHookRender_simps)
  have q9: "queues s3 9 = queues exampleTwoHookState 9"
    using fr by (simp add: exampleTwoHookRender_simps)
  have h8: "hooks s3 8 = hooks exampleTwoHookState 8"
    using hx by (simp add: exampleTwoHookRender_simps)
  have f2: "fibers s3 2 = fibers exampleTwoHookState 2"
    using fb by (simp add: exampleTwoHookRender_simps)
  have hl: "hookList (hooks s3) (fiber_memoizedState (fibers s3 2)) [3, 8]"
    by (simp add: f2 h3 h8 exampleTwoHookRender_simps exampleTwoHookState_simps)
  have "updateReducer sumReducers 0 (startRender (Some 2) 0 1 exampleTwoHookState)
                 = Some (Inr (VNum 101, Some (2, 4)), s1)
         \<and> didScheduleRenderPhaseUpdate (dispatchAction sumReducers 2 4 (VNum 1) 1 s1)
         \<and> resetHooksAfterThrow (dispatchAction sumReducers 2 4 (VNum 1) 1 s1) = Some (Inr (), s3)
         \<and> hookList (hooks s3) (fiber_memoizedState (fibers s3 2)) [3, 8]
         \<and> queue (hooks s3 8) = Some 9
         \<and> pending (queues s3 9) = Some 12
         \<and> updates s3 12 = updates exampleTwoHookState 12
         \<and> queueList (updates s3) (baseQueue (hooks s3 3)) [5, 6, 7]
         \<and> contents (updates s3) [5, 6, 7] = contents (updates exampleTwoHookState) [5, 6, 7]"
    using a b hl u12
    by (simp add: q9 h8 exampleTwoHookRender_def[symmetric] exampleTwoHookRender_simps
          exampleTwoHookState_simps)
  then show ?thesis
    by (auto simp: exampleTwoHookState_simps)
qed


section \<open>The bound on render-phase re-renders\<close>




















end
